theory Spec2Isabelle
  imports Complex_Main
begin

section \<open>Errors\<close>

text \<open>
  The handler \<open>get_dashboard\<close> of \<open>app.py\<close> catches nothing: an exception raised by the
  date library ends the request. The two classes that can occur are kept as values.
\<close>

datatype error = ValueError | OverflowError

section \<open>Calendar arithmetic of the datetime library\<close>

text \<open>
  \<open>datetime.strptime\<close>, \<open>datetime - datetime\<close> and \<open>datetime + timedelta\<close> work on
  proleptic Gregorian ordinals. The definitions follow the library's helper functions
  \<open>_is_leap\<close>, \<open>_days_before_year\<close>, \<open>_days_in_month\<close>, \<open>_days_before_month\<close>,
  \<open>_ymd2ord\<close> and \<open>_ord2ymd\<close>. Only the calendar part of a \<open>datetime\<close> is kept: the
  handler formats every value with \<open>%Y-%m-%d\<close>, and the two parsed values are both at
  midnight, so that the time of day never reaches a result.
\<close>

record datetime =
  year :: int
  month :: int
  day :: int

definition MINYEAR :: int where
  "MINYEAR = 1"

definition MAXYEAR :: int where
  "MAXYEAR = 9999"

definition MAXORDINAL :: int where
  "MAXORDINAL = 3652059"

definition DAYS_IN_MONTH :: "int list" where
  "DAYS_IN_MONTH = [-1, 31, 28, 31, 30, 31, 30, 31, 31, 30, 31, 30, 31]"

definition DAYS_BEFORE_MONTH :: "int list" where
  "DAYS_BEFORE_MONTH = [-1, 0, 31, 59, 90, 120, 151, 181, 212, 243, 273, 304, 334]"

definition is_leap :: "int \<Rightarrow> bool" where
  "is_leap y = (y mod 4 = 0 \<and> (y mod 100 \<noteq> 0 \<or> y mod 400 = 0))"

definition days_before_year :: "int \<Rightarrow> int" where
  "days_before_year y' = (let y = y' - 1 in y * 365 + y div 4 - y div 100 + y div 400)"

definition days_in_month :: "int \<Rightarrow> int \<Rightarrow> int" where
  "days_in_month y m = (if m = 2 \<and> is_leap y then 29 else DAYS_IN_MONTH ! nat m)"

definition days_before_month :: "int \<Rightarrow> int \<Rightarrow> int" where
  "days_before_month y m = DAYS_BEFORE_MONTH ! nat m + (if m > 2 \<and> is_leap y then 1 else 0)"

definition ymd2ord :: "int \<Rightarrow> int \<Rightarrow> int \<Rightarrow> int" where
  "ymd2ord y m d = days_before_year y + days_before_month y m + d"

definition DI400Y :: int where
  "DI400Y = 146097"

definition DI100Y :: int where
  "DI100Y = 36524"

definition DI4Y :: int where
  "DI4Y = 1461"

definition ord2ymd :: "int \<Rightarrow> int \<times> int \<times> int" where
  "ord2ymd n0 =
     (let n = n0 - 1;
          n400 = n div DI400Y; n = n mod DI400Y;
          y = n400 * 400 + 1;
          n100 = n div DI100Y; n = n mod DI100Y;
          n4 = n div DI4Y; n = n mod DI4Y;
          n1 = n div 365; n = n mod 365;
          y = y + (n100 * 100 + n4 * 4 + n1)
      in if n1 = 4 \<or> n100 = 4 then (y - 1, 12, 31)
         else
           let leapyear = (n1 = 3 \<and> (n4 \<noteq> 24 \<or> n100 = 3));
               m = (n + 50) div 32;
               preceding = DAYS_BEFORE_MONTH ! nat m + (if m > 2 \<and> leapyear then 1 else 0)
           in if preceding > n
              then let m = m - 1;
                       preceding = preceding - (DAYS_IN_MONTH ! nat m + (if m = 2 \<and> leapyear then 1 else 0))
                   in (y, m, n - preceding + 1)
              else (y, m, n - preceding + 1))"

text \<open>
  The constructor's range check (\<open>_check_date_fields\<close>): a field out of range raises
  \<open>ValueError\<close>.
\<close>

definition valid_date :: "datetime \<Rightarrow> bool" where
  "valid_date dt =
     (MINYEAR \<le> year dt \<and> year dt \<le> MAXYEAR \<and> 1 \<le> month dt \<and> month dt \<le> 12 \<and>
      1 \<le> day dt \<and> day dt \<le> days_in_month (year dt) (month dt))"

definition datetime_new :: "int \<Rightarrow> int \<Rightarrow> int \<Rightarrow> error + datetime" where
  "datetime_new y m d =
     (if \<not> (MINYEAR \<le> y \<and> y \<le> MAXYEAR) then Inl ValueError
      else if \<not> (1 \<le> m \<and> m \<le> 12) then Inl ValueError
      else if \<not> (1 \<le> d \<and> d \<le> days_in_month y m) then Inl ValueError
      else Inr \<lparr>year = y, month = m, day = d\<rparr>)"

definition toordinal :: "datetime \<Rightarrow> int" where
  "toordinal dt = ymd2ord (year dt) (month dt) (day dt)"

definition fromordinal :: "int \<Rightarrow> datetime" where
  "fromordinal n = (case ord2ymd n of (y, m, d) \<Rightarrow> \<lparr>year = y, month = m, day = d\<rparr>)"

text \<open>
  \<open>dt + timedelta(days=k)\<close>: the sum of the ordinals, \<open>OverflowError\<close> when it leaves
  \<open>1..MAXORDINAL\<close>. \<open>(b - a).days\<close> of two values at midnight is the difference of
  their ordinals.
\<close>

definition add_days :: "datetime \<Rightarrow> int \<Rightarrow> error + datetime" where
  "add_days dt k =
     (let n = toordinal dt + k
      in if 0 < n \<and> n \<le> MAXORDINAL then Inr (fromordinal n) else Inl OverflowError)"

definition sub_days :: "datetime \<Rightarrow> datetime \<Rightarrow> int" where
  "sub_days b a = toordinal b - toordinal a"

section \<open>Parsing and formatting with \<open>%Y-%m-%d\<close>\<close>

text \<open>
  \<open>datetime.strptime\<close> compiles the format into the regular expression
  \<^verbatim>\<open>(?P<Y>\d\d\d\d)-(?P<m>1[0-2]|0[1-9]|[1-9])-(?P<d>3[0-1]|[1-2]\d|0[1-9]|[1-9]| [1-9])\<close>,
  matches it at the start of the string, rejects a match that leaves characters over,
  converts each group with \<open>int\<close> and builds the value with the checking constructor.
  The matcher below is the backtracking one: the alternatives of a group are tried in
  order, and an alternative is kept only when the rest of the pattern matches behind it.
  Strings are sequences of 8-bit characters and the digits are the ASCII digits; the
  decimal digits of other scripts, which Python's \<open>\d\<close> admits as well, are outside the model.
\<close>

type_synonym cclass = "char \<Rightarrow> bool"

definition lit :: "char \<Rightarrow> cclass" where
  "lit a c = (c = a)"

definition in_range :: "char \<Rightarrow> char \<Rightarrow> cclass" where
  "in_range lo hi c = ((of_char lo :: nat) \<le> of_char c \<and> (of_char c :: nat) \<le> of_char hi)"

definition digit :: cclass where
  "digit = in_range (CHR ''0'') (CHR ''9'')"

fun match_seq :: "cclass list \<Rightarrow> string \<Rightarrow> (string \<times> string) option" where
  "match_seq [] s = Some ([], s)"
| "match_seq (p # ps) [] = None"
| "match_seq (p # ps) (c # cs) =
     (if p c then (case match_seq ps cs of None \<Rightarrow> None | Some (m, r) \<Rightarrow> Some (c # m, r))
      else None)"

fun re_match :: "cclass list list \<Rightarrow> cclass list list list \<Rightarrow> string \<Rightarrow> (string list \<times> string) option" where
  "re_match [] gs s = None"
| "re_match (a # as) gs s =
     (case match_seq a s of
        None \<Rightarrow> re_match as gs s
      | Some (m, r) \<Rightarrow>
          (case gs of
             [] \<Rightarrow> Some ([m], r)
           | g # gs' \<Rightarrow>
               (case re_match g gs' r of
                  None \<Rightarrow> re_match as gs s
                | Some (ms, r') \<Rightarrow> Some (m # ms, r'))))"

definition re_Y :: "cclass list list" where
  "re_Y = [[digit, digit, digit, digit]]"

definition re_dash :: "cclass list list" where
  "re_dash = [[lit (CHR ''-'')]]"

definition re_m :: "cclass list list" where
  "re_m = [[lit (CHR ''1''), in_range (CHR ''0'') (CHR ''2'')],
           [lit (CHR ''0''), in_range (CHR ''1'') (CHR ''9'')],
           [in_range (CHR ''1'') (CHR ''9'')]]"

definition re_d :: "cclass list list" where
  "re_d = [[lit (CHR ''3''), in_range (CHR ''0'') (CHR ''1'')],
           [in_range (CHR ''1'') (CHR ''2''), digit],
           [lit (CHR ''0''), in_range (CHR ''1'') (CHR ''9'')],
           [in_range (CHR ''1'') (CHR ''9'')],
           [lit (CHR '' ''), in_range (CHR ''1'') (CHR ''9'')]]"

text \<open>\<open>int\<close> on a matched group: a leading blank is dropped, the digits are decimal.\<close>

definition digit_val :: "char \<Rightarrow> int" where
  "digit_val c = int (of_char c) - 48"

definition py_int :: "string \<Rightarrow> int" where
  "py_int s = foldl (\<lambda>a c. 10 * a + digit_val c) 0 (dropWhile (\<lambda>c. c = CHR '' '') s)"

definition strptime :: "string \<Rightarrow> error + datetime" where
  "strptime data_string =
     (case re_match re_Y [re_dash, re_m, re_dash, re_d] data_string of
        None \<Rightarrow> Inl ValueError
      | Some (found, rest) \<Rightarrow>
          if rest \<noteq> [] then Inl ValueError
          else (case found of
                  [Y, d1, m, d2, d] \<Rightarrow> datetime_new (py_int Y) (py_int m) (py_int d)
                | _ \<Rightarrow> Inl ValueError))"

text \<open>
  \<open>strftime('%Y-%m-%d')\<close>: month and day are two digits, zero-filled. The year is
  printed by the C library, which under glibc does not zero-fill a year below 1000; from
  1000 on every platform prints the four digits.
\<close>

definition digit_char :: "int \<Rightarrow> char" where
  "digit_char k = char_of (48 + nat k)"

function str_nat :: "nat \<Rightarrow> string" where
  "str_nat n = (if n < 10 then [digit_char (int n)] else str_nat (n div 10) @ [digit_char (int (n mod 10))])"
  by pat_completeness auto
termination
  by (relation "measure id") auto

declare str_nat.simps [simp del]

definition pad2 :: "int \<Rightarrow> string" where
  "pad2 k = [digit_char (k div 10), digit_char (k mod 10)]"

definition strftime :: "datetime \<Rightarrow> string" where
  "strftime dt = str_nat (nat (year dt)) @ ''-'' @ pad2 (month dt) @ ''-'' @ pad2 (day dt)"

section \<open>The pseudo-random source\<close>

text \<open>
  The handler draws from the process-wide generator of the \<open>random\<close> module through
  three functions. The generator is an explicit state of any type \<open>'g\<close>; each function
  returns its draw and the next state. \<open>rnd_sample n k\<close> gives the positions that
  \<open>random.sample\<close> picks out of a population of \<open>n\<close> elements.
\<close>

record 'g random_module =
  rnd_random :: "'g \<Rightarrow> real \<times> 'g"
  rnd_randint :: "int \<Rightarrow> int \<Rightarrow> 'g \<Rightarrow> int \<times> 'g"
  rnd_sample :: "nat \<Rightarrow> nat \<Rightarrow> 'g \<Rightarrow> nat list \<times> 'g"

text \<open>
  What the library documents of the three functions: \<open>random()\<close> lies in \<open>[0, 1)\<close>,
  \<open>randint(a, b)\<close> lies in \<open>[a, b]\<close>, and \<open>sample\<close> picks \<open>k\<close> different positions.
\<close>

definition random_contract :: "'g random_module \<Rightarrow> bool" where
  "random_contract R =
     ((\<forall>g. 0 \<le> fst (rnd_random R g) \<and> fst (rnd_random R g) < 1) \<and>
      (\<forall>a b g. a \<le> b \<longrightarrow> a \<le> fst (rnd_randint R a b g) \<and> fst (rnd_randint R a b g) \<le> b) \<and>
      (\<forall>n k g. k \<le> n \<longrightarrow>
         length (fst (rnd_sample R n k g)) = k \<and> distinct (fst (rnd_sample R n k g)) \<and>
         (\<forall>i \<in> set (fst (rnd_sample R n k g)). i < n)))"

text \<open>\<open>random.sample(population, k)\<close>: \<open>ValueError\<close> when the population is too small.\<close>

definition sample :: "'g random_module \<Rightarrow> 'a list \<Rightarrow> nat \<Rightarrow> 'g \<Rightarrow> error + ('a list \<times> 'g)" where
  "sample R population k g =
     (if length population < k then Inl ValueError
      else case rnd_sample R (length population) k g of
             (idx, g') \<Rightarrow> Inr (map (\<lambda>i. population ! i) idx, g'))"

text \<open>A generator that always draws the least value, for evaluating the handler.\<close>

definition least_draws :: "unit random_module" where
  "least_draws = \<lparr>rnd_random = (\<lambda>g. (0, g)), rnd_randint = (\<lambda>a b g. (a, g)),
                  rnd_sample = (\<lambda>n k g. ([0..<k], g))\<rparr>"

section \<open>The dashboard handler\<close>

record point =
  date :: string
  count :: int
  anxiety :: real
  sadness :: real
  joy :: real

record topic_trend =
  topic :: string
  changePct :: real
  mentions :: int

record emotion_share =
  emotion_name :: string
  emotion_value :: real

record node =
  node_id :: string
  degree :: int
  sentiment :: real

record link =
  source :: string
  target :: string
  link_value :: real

record graph =
  nodes :: "node list"
  links :: "link list"

record meta =
  meta_from :: string
  meta_to :: string
  meta_platform :: string

record response =
  timeSeries :: "point list"
  topics :: "topic_trend list"
  emotions :: "emotion_share list"
  graph :: graph
  meta :: meta

text \<open>The query string: each of the three parameters is present or absent.\<close>

record request =
  arg_from :: "string option"
  arg_to :: "string option"
  arg_platform :: "string option"

definition args_get :: "string option \<Rightarrow> string \<Rightarrow> string" where
  "args_get v dflt = (case v of None \<Rightarrow> dflt | Some s \<Rightarrow> s)"

text \<open>\<open>round\<close> of a float to an integer: to the nearest, a tie to the even neighbour.\<close>

definition py_round :: "real \<Rightarrow> int" where
  "py_round x =
     (let f = \<lfloor>x\<rfloor>; d = x - of_int f
      in if d < 1 / 2 then f else if 1 / 2 < d then f + 1 else if even f then f else f + 1)"

definition py_range :: "int \<Rightarrow> int list" where
  "py_range n = map int [0..<nat n]"

text \<open>
  The three loops of the handler. Floats are taken as real numbers: \<open>math.sin\<close> and
  \<open>math.cos\<close> are the real functions and the arithmetic is exact.
\<close>

fun time_series_loop :: "'g random_module \<Rightarrow> datetime \<Rightarrow> int list \<Rightarrow> 'g \<Rightarrow> error + (point list \<times> 'g)" where
  "time_series_loop R start [] g = Inr ([], g)"
| "time_series_loop R start (i # is) g =
     (case add_days start i of
        Inl e \<Rightarrow> Inl e
      | Inr d \<Rightarrow>
          (case rnd_random R g of (u1, g1) \<Rightarrow>
           case rnd_random R g1 of (u2, g2) \<Rightarrow>
           case rnd_random R g2 of (u3, g3) \<Rightarrow>
           case rnd_random R g3 of (u4, g4) \<Rightarrow>
             let base = py_round (200 + 40 * sin (of_int i / 6) + u1 * 60);
                 anxiety = max 0 ((sin (of_int i / 7 + 0.5) + u2 * 0.6) / 2);
                 sadness = max 0 ((cos (of_int i / 8) + u3 * 0.6) / 2);
                 joy = max 0 ((cos (of_int i / 5 + 1) + u4 * 0.6) / 2);
                 p = \<lparr>date = strftime d, count = base, anxiety = anxiety,
                      sadness = sadness, joy = joy\<rparr>
             in (case time_series_loop R start is g4 of
                   Inl e \<Rightarrow> Inl e
                 | Inr (ps, g') \<Rightarrow> Inr (p # ps, g'))))"

fun nodes_loop :: "'g random_module \<Rightarrow> int list \<Rightarrow> 'g \<Rightarrow> node list \<times> 'g" where
  "nodes_loop R [] g = ([], g)"
| "nodes_loop R (i # is) g =
     (case rnd_randint R 1 10 g of (dg, g1) \<Rightarrow>
      case rnd_random R g1 of (u, g2) \<Rightarrow>
        let n = \<lparr>node_id = ''user_'' @ str_nat (nat i), degree = dg, sentiment = (u - 0.5) * 1.6\<rparr>
        in (case nodes_loop R is g2 of (ns, g') \<Rightarrow> (n # ns, g')))"

fun links_loop :: "'g random_module \<Rightarrow> node list \<Rightarrow> int list \<Rightarrow> 'g \<Rightarrow> error + (link list \<times> 'g)" where
  "links_loop R ns [] g = Inr ([], g)"
| "links_loop R ns (i # is) g =
     (case sample R ns 2 g of
        Inl e \<Rightarrow> Inl e
      | Inr (ab, g1) \<Rightarrow>
          (case ab of
             [a, b] \<Rightarrow>
               (case rnd_random R g1 of (u, g2) \<Rightarrow>
                  let l = \<lparr>source = node_id a, target = node_id b, link_value = u\<rparr>
                  in (case links_loop R ns is g2 of
                        Inl e \<Rightarrow> Inl e
                      | Inr (ls, g') \<Rightarrow> Inr (l # ls, g')))
           | _ \<Rightarrow> Inl ValueError))"

definition static_topics :: "topic_trend list" where
  "static_topics =
     [\<lparr>topic = ''exam stress'', changePct = 0.22, mentions = 420\<rparr>,
      \<lparr>topic = ''job market anxiety'', changePct = 0.12, mentions = 320\<rparr>,
      \<lparr>topic = ''sleep issues'', changePct = 0.08, mentions = 210\<rparr>,
      \<lparr>topic = ''financial pressure'', changePct = 0.05, mentions = 150\<rparr>]"

definition static_emotions :: "emotion_share list" where
  "static_emotions =
     [\<lparr>emotion_name = ''sadness'', emotion_value = 0.38\<rparr>,
      \<lparr>emotion_name = ''anger'', emotion_value = 0.12\<rparr>,
      \<lparr>emotion_name = ''fear'', emotion_value = 0.18\<rparr>,
      \<lparr>emotion_name = ''joy'', emotion_value = 0.10\<rparr>,
      \<lparr>emotion_name = ''neutral'', emotion_value = 0.22\<rparr>]"

text \<open>
  The handler. \<open>now1\<close> and \<open>now2\<close> are the dates of the two readings of the clock, in
  the order of the two calls of \<open>datetime.now()\<close>: both defaults are computed before
  the query string is looked at, the first from \<open>now1\<close>, the second from \<open>now2\<close>.
\<close>

definition get_dashboard :: "'g random_module \<Rightarrow> datetime \<Rightarrow> datetime \<Rightarrow> request \<Rightarrow> 'g \<Rightarrow> error + response" where
  "get_dashboard R now1 now2 req g =
     (case add_days now1 (- 30) of
        Inl e \<Rightarrow> Inl e
      | Inr d30 \<Rightarrow>
          let start_date = args_get (arg_from req) (strftime d30);
              end_date = args_get (arg_to req) (strftime now2);
              platform = args_get (arg_platform req) ''twitter''
          in (case strptime start_date of
                Inl e \<Rightarrow> Inl e
              | Inr start \<Rightarrow>
                  (case strptime end_date of
                     Inl e \<Rightarrow> Inl e
                   | Inr end_dt \<Rightarrow>
                       let days = sub_days end_dt start + 1
                       in (case time_series_loop R start (py_range days) g of
                             Inl e \<Rightarrow> Inl e
                           | Inr (time_series, g1) \<Rightarrow>
                               (case nodes_loop R (py_range 40) g1 of (ns, g2) \<Rightarrow>
                                  (case links_loop R ns (py_range 80) g2 of
                                     Inl e \<Rightarrow> Inl e
                                   | Inr (ls, g3) \<Rightarrow>
                                       Inr \<lparr>timeSeries = time_series,
                                            topics = static_topics,
                                            emotions = static_emotions,
                                            graph = \<lparr>nodes = ns, links = ls\<rparr>,
                                            meta = \<lparr>meta_from = start_date, meta_to = end_date,
                                                    meta_platform = platform\<rparr>\<rparr>))))))"

section \<open>Notions used to state the properties\<close>

text \<open>
  The next calendar day, written from the calendar and not from the ordinals, and the run
  of \<open>k\<close> consecutive calendar days from a day on.
\<close>

definition next_day :: "datetime \<Rightarrow> datetime" where
  "next_day dt =
     (if day dt < days_in_month (year dt) (month dt) then dt\<lparr>day := day dt + 1\<rparr>
      else if month dt < 12 then \<lparr>year = year dt, month = month dt + 1, day = 1\<rparr>
      else \<lparr>year = year dt + 1, month = 1, day = 1\<rparr>)"

fun day_run :: "datetime \<Rightarrow> nat \<Rightarrow> datetime list" where
  "day_run d 0 = []"
| "day_run d (Suc k) = d # day_run (next_day d) k"

text \<open>
  A reading of the clock that the handler can use: a date of the library from which
  thirty days can be taken away.
\<close>

definition clock_ok :: "datetime \<Rightarrow> bool" where
  "clock_ok now = (valid_date now \<and> 30 < toordinal now)"

text \<open>Month and day number \<open>n\<close> (from 0) of a year agree with the month tables.\<close>

definition md_ok :: "bool \<Rightarrow> int \<Rightarrow> int \<Rightarrow> int \<Rightarrow> bool" where
  "md_ok L n m d =
     (1 \<le> m \<and> m \<le> 12 \<and> 1 \<le> d \<and> d \<le> (if m = 2 \<and> L then 29 else DAYS_IN_MONTH ! nat m) \<and>
      DAYS_BEFORE_MONTH ! nat m + (if m > 2 \<and> L then 1 else 0) + d = n + 1)"

definition ymd_ok :: "int \<Rightarrow> int \<times> int \<times> int \<Rightarrow> bool" where
  "ymd_ok n0 t =
     (case t of (y, m, d) \<Rightarrow>
        1 \<le> m \<and> m \<le> 12 \<and> 1 \<le> d \<and> d \<le> days_in_month y m \<and> ymd2ord y m d = n0)"

text \<open>
  The calendar order of two dates, and the three request parameters after the defaults
  have been filled in.
\<close>

definition date_less :: "datetime \<Rightarrow> datetime \<Rightarrow> bool" where
  "date_less a b =
     (year a < year b \<or> (year a = year b \<and>
        (month a < month b \<or> (month a = month b \<and> day a < day b))))"

definition resolved_from :: "datetime \<Rightarrow> request \<Rightarrow> string" where
  "resolved_from now1 req = args_get (arg_from req) (strftime (fromordinal (toordinal now1 - 30)))"

definition resolved_to :: "datetime \<Rightarrow> request \<Rightarrow> string" where
  "resolved_to now2 req = args_get (arg_to req) (strftime now2)"

definition resolved_platform :: "request \<Rightarrow> string" where
  "resolved_platform req = args_get (arg_platform req) ''twitter''"

text \<open>
  The example request of the specification, \<open>from=2024-01-01&to=2024-01-03\<close>, a request
  with the two dates exchanged, the empty query string and a day for the clock.
\<close>

definition example_request :: request where
  "example_request = \<lparr>arg_from = Some ''2024-01-01'', arg_to = Some ''2024-01-03'', arg_platform = None\<rparr>"

definition reversed_request :: request where
  "reversed_request = \<lparr>arg_from = Some ''2024-01-03'', arg_to = Some ''2024-01-01'', arg_platform = None\<rparr>"

definition empty_request :: request where
  "empty_request = \<lparr>arg_from = None, arg_to = None, arg_platform = None\<rparr>"

definition example_now :: datetime where
  "example_now = \<lparr>year = 2024, month = 3, day = 15\<rparr>"

definition malformed_request :: request where
  "malformed_request = \<lparr>arg_from = Some ''2024-13-01'', arg_to = None, arg_platform = None\<rparr>"

text \<open>Two readings of the clock with midnight between them.\<close>

definition before_midnight :: datetime where
  "before_midnight = \<lparr>year = 2024, month = 1, day = 31\<rparr>"

definition after_midnight :: datetime where
  "after_midnight = \<lparr>year = 2024, month = 2, day = 1\<rparr>"

section \<open>The calendar: ordinals and dates are inverse to each other\<close>


lemma mod_zero_block:
  fixes k q r :: int
  assumes "0 < r" "r \<le> k"
  shows "((k * q + r) mod k = 0) = (r = k)"
proof (cases "r = k")
  case True
  then show ?thesis by simp
next
  case False
  with assms have "r < k" by simp
  with assms have "(k * q + r) mod k = r" by simp
  with assms False show ?thesis by simp
qed

lemma div_block:
  fixes k q r :: int
  assumes "0 \<le> r" "r < k"
  shows "(k * q + r) div k = q"
  using assms by simp

lemma leap_decomp:
  assumes "0 \<le> b" "b \<le> 3" "0 \<le> c" "c \<le> 24" "0 \<le> e" "e \<le> 3"
  shows "is_leap (400 * a + 100 * b + 4 * c + e + 1) = (e = 3 \<and> (c \<noteq> 24 \<or> b = 3))"
proof -
  let ?y = "400 * a + 100 * b + 4 * c + e + 1"
  have y4: "?y = 4 * (100 * a + 25 * b + c) + (e + 1)" by simp
  have y100: "?y = 100 * (4 * a + b) + (4 * c + e + 1)" by simp
  have y400: "?y = 400 * a + (100 * b + 4 * c + e + 1)" by simp
  have m4: "(?y mod 4 = 0) = (e + 1 = 4)"
    unfolding y4 using assms by (intro mod_zero_block) auto
  have m100: "(?y mod 100 = 0) = (4 * c + e + 1 = 100)"
    unfolding y100 using assms by (intro mod_zero_block) auto
  have m400: "(?y mod 400 = 0) = (100 * b + 4 * c + e + 1 = 400)"
    unfolding y400 using assms by (intro mod_zero_block) auto
  show ?thesis
    unfolding is_leap_def m4 m100 m400 using assms by auto
qed

lemma dby_decomp:
  assumes "0 \<le> b" "b \<le> 3" "0 \<le> c" "c \<le> 24" "0 \<le> e" "e \<le> 3"
  shows "days_before_year (400 * a + 100 * b + 4 * c + e + 1) = 146097 * a + 36524 * b + 1461 * c + 365 * e"
proof -
  let ?y = "400 * a + 100 * b + 4 * c + e"
  have y4: "?y = 4 * (100 * a + 25 * b + c) + e" by simp
  have y100: "?y = 100 * (4 * a + b) + (4 * c + e)" by simp
  have y400: "?y = 400 * a + (100 * b + 4 * c + e)" by simp
  have d4: "?y div 4 = 100 * a + 25 * b + c"
    unfolding y4 using assms by (intro div_block) auto
  have d100: "?y div 100 = 4 * a + b"
    unfolding y100 using assms by (intro div_block) auto
  have d400: "?y div 400 = a"
    unfolding y400 using assms by (intro div_block) auto
  show ?thesis
    unfolding days_before_year_def Let_def by (simp add: d4 d100 d400)
qed

lemma month_estimate:
  fixes n :: int
  assumes "0 \<le> n" "n < 365 + (if L then 1 else 0)"
    and P: "\<And>m d. md_ok L n m d \<Longrightarrow> P (y, m, d)"
  shows "P (let m = (n + 50) div 32;
             preceding = DAYS_BEFORE_MONTH ! nat m + (if m > 2 \<and> L then 1 else 0)
         in if preceding > n
            then let m = m - 1;
                     preceding = preceding - (DAYS_IN_MONTH ! nat m + (if m = 2 \<and> L then 1 else 0))
                 in (y, m, n - preceding + 1)
            else (y, m, n - preceding + 1))"
proof -
  define m where "m = (n + 50) div 32"
  have lo: "32 * m \<le> n + 50" and hi: "n + 50 < 32 * m + 32"
    unfolding m_def by presburger+
  from assms(1,2) lo hi have "1 \<le> m" "m \<le> 12" by (auto split: if_splits)
  then have "m = 1 \<or> m = 2 \<or> m = 3 \<or> m = 4 \<or> m = 5 \<or> m = 6
    \<or> m = 7 \<or> m = 8 \<or> m = 9 \<or> m = 10 \<or> m = 11 \<or> m = 12" by arith
  then consider "m = 1" | "m = 2" | "m = 3" | "m = 4" | "m = 5" | "m = 6"
    | "m = 7" | "m = 8" | "m = 9" | "m = 10" | "m = 11" | "m = 12" by blast
  then show ?thesis
  proof cases
    case 1 with lo hi assms(1,2) show ?thesis unfolding m_def[symmetric] Let_def
      by (auto intro!: P simp add: md_ok_def DAYS_BEFORE_MONTH_def DAYS_IN_MONTH_def)
  next
    case 2 with lo hi assms(1,2) show ?thesis unfolding m_def[symmetric] Let_def
      by (auto intro!: P simp add: md_ok_def DAYS_BEFORE_MONTH_def DAYS_IN_MONTH_def)
  next
    case 3 with lo hi assms(1,2) show ?thesis unfolding m_def[symmetric] Let_def
      by (auto intro!: P simp add: md_ok_def DAYS_BEFORE_MONTH_def DAYS_IN_MONTH_def)
  next
    case 4 with lo hi assms(1,2) show ?thesis unfolding m_def[symmetric] Let_def
      by (auto intro!: P simp add: md_ok_def DAYS_BEFORE_MONTH_def DAYS_IN_MONTH_def)
  next
    case 5 with lo hi assms(1,2) show ?thesis unfolding m_def[symmetric] Let_def
      by (auto intro!: P simp add: md_ok_def DAYS_BEFORE_MONTH_def DAYS_IN_MONTH_def)
  next
    case 6 with lo hi assms(1,2) show ?thesis unfolding m_def[symmetric] Let_def
      by (auto intro!: P simp add: md_ok_def DAYS_BEFORE_MONTH_def DAYS_IN_MONTH_def)
  next
    case 7 with lo hi assms(1,2) show ?thesis unfolding m_def[symmetric] Let_def
      by (auto intro!: P simp add: md_ok_def DAYS_BEFORE_MONTH_def DAYS_IN_MONTH_def)
  next
    case 8 with lo hi assms(1,2) show ?thesis unfolding m_def[symmetric] Let_def
      by (auto intro!: P simp add: md_ok_def DAYS_BEFORE_MONTH_def DAYS_IN_MONTH_def)
  next
    case 9 with lo hi assms(1,2) show ?thesis unfolding m_def[symmetric] Let_def
      by (auto intro!: P simp add: md_ok_def DAYS_BEFORE_MONTH_def DAYS_IN_MONTH_def)
  next
    case 10 with lo hi assms(1,2) show ?thesis unfolding m_def[symmetric] Let_def
      by (auto intro!: P simp add: md_ok_def DAYS_BEFORE_MONTH_def DAYS_IN_MONTH_def)
  next
    case 11 with lo hi assms(1,2) show ?thesis unfolding m_def[symmetric] Let_def
      by (auto intro!: P simp add: md_ok_def DAYS_BEFORE_MONTH_def DAYS_IN_MONTH_def)
  next
    case 12 with lo hi assms(1,2) show ?thesis unfolding m_def[symmetric] Let_def
      by (auto intro!: P simp add: md_ok_def DAYS_BEFORE_MONTH_def DAYS_IN_MONTH_def)
  qed
qed

lemma ord2ymd_ok: "ymd_ok n0 (ord2ymd n0)"
proof -
  define n where "n = n0 - 1"
  define a where "a = n div 146097"
  define r1 where "r1 = n mod 146097"
  define b where "b = r1 div 36524"
  define r2 where "r2 = r1 mod 36524"
  define c where "c = r2 div 1461"
  define r3 where "r3 = r2 mod 1461"
  define e where "e = r3 div 365"
  define r4 where "r4 = r3 mod 365"
  have n: "n = 146097 * a + r1" and r1: "0 \<le> r1" "r1 < 146097"
    unfolding a_def r1_def by simp_all
  have r1': "r1 = 36524 * b + r2" and r2: "0 \<le> r2" "r2 < 36524"
    unfolding b_def r2_def by simp_all
  have r2': "r2 = 1461 * c + r3" and r3: "0 \<le> r3" "r3 < 1461"
    unfolding c_def r3_def by simp_all
  have r3': "r3 = 365 * e + r4" and r4: "0 \<le> r4" "r4 < 365"
    unfolding e_def r4_def by simp_all
  have b: "0 \<le> b" "b \<le> 4" using r1 r1' r2 by arith+
  have c: "0 \<le> c" "c \<le> 24" using r2 r2' r3 by arith+
  have e: "0 \<le> e" "e \<le> 4" using r3 r3' r4 by arith+
  define L where "L = (e = 3 \<and> (c \<noteq> 24 \<or> b = 3))"
  have unf: "ord2ymd n0 =
     (if e = 4 \<or> b = 4 then (400 * a + 100 * b + 4 * c + e + 1 - 1, 12, 31)
      else (let m = (r4 + 50) div 32;
             preceding = DAYS_BEFORE_MONTH ! nat m + (if m > 2 \<and> L then 1 else 0)
         in if preceding > r4
            then let m = m - 1;
                     preceding = preceding - (DAYS_IN_MONTH ! nat m + (if m = 2 \<and> L then 1 else 0))
                 in (400 * a + 100 * b + 4 * c + e + 1, m, r4 - preceding + 1)
            else (400 * a + 100 * b + 4 * c + e + 1, m, r4 - preceding + 1)))"
    unfolding ord2ymd_def DI400Y_def DI100Y_def DI4Y_def Let_def
      n_def[symmetric] a_def[symmetric] r1_def[symmetric] b_def[symmetric] r2_def[symmetric]
      c_def[symmetric] r3_def[symmetric] e_def[symmetric] r4_def[symmetric] L_def[symmetric]
    by (simp add: algebra_simps)
  show ?thesis
  proof (cases "b = 4")
    case True
    with r1 r1' r2 have "r2 = 0" by arith
    with r2' r3 c have "c = 0" "r3 = 0" by arith+
    with r3' r4 e have "e = 0" "r4 = 0" by arith+
    have res: "ord2ymd n0 = (400 * a + 100 * 3 + 4 * 24 + 3 + 1, 12, 31)"
      unfolding unf using True \<open>c = 0\<close> \<open>e = 0\<close> by simp
    have n0: "n0 = 146097 * a + 146097"
      using n r1' True \<open>r2 = 0\<close> unfolding n_def by simp
    have lp: "is_leap (400 * a + 100 * 3 + 4 * 24 + 3 + 1)"
      by (subst leap_decomp) simp_all
    have dby: "days_before_year (400 * a + 100 * 3 + 4 * 24 + 3 + 1) = 146097 * a + 36524 * 3 + 1461 * 24 + 365 * 3"
      by (rule dby_decomp) simp_all
    show ?thesis
      unfolding res ymd_ok_def prod.case ymd2ord_def days_in_month_def days_before_month_def dby
      using lp by (simp add: DAYS_IN_MONTH_def DAYS_BEFORE_MONTH_def n0)
  next
    case b4: False
    with b have b3: "b \<le> 3" by simp
    show ?thesis
    proof (cases "e = 4")
      case True
      with r3 r3' r4 have "r4 = 0" by arith
      have "c \<noteq> 24" using r2 r2' r3' True r4 by arith
      with c have c23: "c \<le> 23" by simp
      have res: "ord2ymd n0 = (400 * a + 100 * b + 4 * c + 3 + 1, 12, 31)"
        unfolding unf using True by simp
      have n0: "n0 = 146097 * a + 36524 * b + 1461 * c + 1461"
        using n r1' r2' r3' True \<open>r4 = 0\<close> unfolding n_def by simp
      have lp: "is_leap (400 * a + 100 * b + 4 * c + 3 + 1)"
        using b b3 c \<open>c \<noteq> 24\<close> by (subst leap_decomp) simp_all
      have dby: "days_before_year (400 * a + 100 * b + 4 * c + 3 + 1) = 146097 * a + 36524 * b + 1461 * c + 365 * 3"
        using b b3 c by (intro dby_decomp) simp_all
      show ?thesis
        unfolding res ymd_ok_def prod.case ymd2ord_def days_in_month_def days_before_month_def dby
        using lp by (simp add: DAYS_IN_MONTH_def DAYS_BEFORE_MONTH_def n0)
    next
      case e4: False
      with e have e3: "e \<le> 3" by simp
      let ?y = "400 * a + 100 * b + 4 * c + e + 1"
      have leap: "is_leap ?y = L"
        unfolding L_def using b b3 c e e3 by (intro leap_decomp) auto
      have dby: "days_before_year ?y = 146097 * a + 36524 * b + 1461 * c + 365 * e"
        using b b3 c e e3 by (intro dby_decomp) auto
      have n0: "n0 = 146097 * a + 36524 * b + 1461 * c + 365 * e + r4 + 1"
        using n r1' r2' r3' unfolding n_def by simp
      have fin: "ymd_ok n0 (?y, m, d)" if "md_ok L r4 m d" for m d
        using that unfolding md_ok_def ymd_ok_def prod.case ymd2ord_def days_in_month_def
          days_before_month_def leap dby n0 by auto
      show ?thesis
        unfolding unf using b4 e4
        apply (simp only: if_False simp_thms)
        apply (rule month_estimate)
        using r4 apply simp
        using r4 apply simp
        apply (erule fin)
        done
    qed
  qed
qed


lemma div_succ:
  fixes x k :: int
  assumes "0 < k"
  shows "(x + 1) div k = x div k + (if (x + 1) mod k = 0 then 1 else 0)"
proof -
  define q where "q = x div k"
  define r where "r = x mod k"
  have x: "x = k * q + r" and r: "0 \<le> r" "r < k"
    unfolding q_def r_def using assms by simp_all
  show ?thesis
  proof (cases "r + 1 = k")
    case True
    then have "x + 1 = k * (q + 1)" using x by (simp add: algebra_simps)
    then show ?thesis using assms by (simp add: q_def)
  next
    case False
    with r have r1: "0 \<le> r + 1" "r + 1 < k" by simp_all
    have x1: "x + 1 = k * q + (r + 1)" using x by simp
    have "(x + 1) div k = q" unfolding x1 using r1 by simp
    moreover have "(x + 1) mod k = r + 1" unfolding x1 using r1 by simp
    ultimately show ?thesis using r by (simp add: q_def)
  qed
qed

lemma mod_400_100: "(y::int) mod 400 = 0 \<Longrightarrow> y mod 100 = 0"
proof -
  assume "y mod 400 = 0"
  then have "400 dvd y" by (simp add: mod_eq_0_iff_dvd)
  moreover have "(100::int) dvd 400" by simp
  ultimately have "100 dvd y" by (rule dvd_trans[rotated])
  then show ?thesis by (simp add: mod_eq_0_iff_dvd)
qed

lemma mod_100_4: "(y::int) mod 100 = 0 \<Longrightarrow> y mod 4 = 0"
proof -
  assume "y mod 100 = 0"
  then have "100 dvd y" by (simp add: mod_eq_0_iff_dvd)
  moreover have "(4::int) dvd 100" by simp
  ultimately have "4 dvd y" by (rule dvd_trans[rotated])
  then show ?thesis by (simp add: mod_eq_0_iff_dvd)
qed

lemma dby_step: "days_before_year (y + 1) = days_before_year y + (if is_leap y then 366 else 365)"
proof -
  define q4 q100 q400 where "q4 = (y - 1) div 4" and "q100 = (y - 1) div 100" and "q400 = (y - 1) div 400"
  define p4 p100 p400 where "p4 = (y mod 4 = 0)" and "p100 = (y mod 100 = 0)" and "p400 = (y mod 400 = 0)"
  have d4: "y div 4 = q4 + (if p4 then 1 else 0)"
    using div_succ[of 4 "y - 1"] by (simp add: q4_def p4_def)
  have d100: "y div 100 = q100 + (if p100 then 1 else 0)"
    using div_succ[of 100 "y - 1"] by (simp add: q100_def p100_def)
  have d400: "y div 400 = q400 + (if p400 then 1 else 0)"
    using div_succ[of 400 "y - 1"] by (simp add: q400_def p400_def)
  have imp: "p400 \<longrightarrow> p100" "p100 \<longrightarrow> p4"
    unfolding p4_def p100_def p400_def using mod_400_100[of y] mod_100_4[of y] by blast+
  have lhs: "days_before_year (y + 1) = y * 365 + (q4 + (if p4 then 1 else 0)) - (q100 + (if p100 then 1 else 0)) + (q400 + (if p400 then 1 else 0))"
    unfolding days_before_year_def Let_def d4[symmetric] d100[symmetric] d400[symmetric] by simp
  have rhs: "days_before_year y = (y - 1) * 365 + q4 - q100 + q400"
    unfolding days_before_year_def Let_def q4_def q100_def q400_def by simp
  have lp: "is_leap y = (p4 \<and> (\<not> p100 \<or> p400))"
    unfolding is_leap_def p4_def p100_def p400_def by simp
  show ?thesis
    unfolding lhs rhs lp using imp by (cases p4; cases p100; cases p400; simp)
qed

lemma dby_mono_aux: "days_before_year y \<le> days_before_year (y + int k)"
proof (induction k)
  case 0
  then show ?case by simp
next
  case (Suc k)
  have "y + int (Suc k) = (y + int k) + 1" by simp
  then have "days_before_year (y + int (Suc k)) = days_before_year ((y + int k) + 1)"
    by (rule arg_cong)
  also have "\<dots> \<ge> days_before_year (y + int k)"
    unfolding dby_step by simp
  finally show ?case using Suc by simp
qed

lemma dby_mono: "y \<le> y' \<Longrightarrow> days_before_year y \<le> days_before_year y'"
  using dby_mono_aux[of y "nat (y' - y)"] by simp

lemma dby_10000: "days_before_year 10000 = 3652059"
  by (simp add: days_before_year_def)

lemma dby_1: "days_before_year 1 = 0"
  by (simp add: days_before_year_def)

lemma month_cases:
  fixes m :: int
  assumes "1 \<le> m" "m \<le> 12"
  obtains "m = 1" | "m = 2" | "m = 3" | "m = 4" | "m = 5" | "m = 6"
    | "m = 7" | "m = 8" | "m = 9" | "m = 10" | "m = 11" | "m = 12"
proof -
  from assms have "m = 1 \<or> m = 2 \<or> m = 3 \<or> m = 4 \<or> m = 5 \<or> m = 6
    \<or> m = 7 \<or> m = 8 \<or> m = 9 \<or> m = 10 \<or> m = 11 \<or> m = 12" by arith
  then show ?thesis using that by blast
qed

lemma dim_bounds:
  assumes "1 \<le> m" "m \<le> 12"
  shows "28 \<le> days_in_month y m" "days_in_month y m \<le> 31"
  using assms(1,2) by (cases m rule: month_cases; simp add: days_in_month_def DAYS_IN_MONTH_def)+

lemma dbm_succ:
  assumes "1 \<le> m" "m < 12"
  shows "days_before_month y (m + 1) = days_before_month y m + days_in_month y m"
proof -
  from assms have "1 \<le> m" "m \<le> 12" by simp_all
  then show ?thesis using assms(2)
    by (cases m rule: month_cases; simp add: days_before_month_def days_in_month_def DAYS_IN_MONTH_def DAYS_BEFORE_MONTH_def)
qed

lemma dbm_12: "days_before_month y 12 + days_in_month y 12 = (if is_leap y then 366 else 365)"
  by (simp add: days_before_month_def days_in_month_def DAYS_IN_MONTH_def DAYS_BEFORE_MONTH_def)

lemma dbm_1: "days_before_month y 1 = 0"
  by (simp add: days_before_month_def DAYS_BEFORE_MONTH_def)

lemma dbm_mono_aux:
  "1 \<le> m \<Longrightarrow> m + int k \<le> 12 \<Longrightarrow>
   days_before_month y m + (if k = 0 then 0 else days_in_month y m) \<le> days_before_month y (m + int k)"
proof (induction k)
  case 0
  then show ?case by simp
next
  case (Suc k)
  have m: "1 \<le> m + int k" "m + int k < 12" using Suc.prems by simp_all
  have "m + int (Suc k) = (m + int k) + 1" by simp
  then have "days_before_month y (m + int (Suc k)) = days_before_month y ((m + int k) + 1)"
    by (rule arg_cong)
  then have step: "days_before_month y (m + int (Suc k)) = days_before_month y (m + int k) + days_in_month y (m + int k)"
    using dbm_succ[OF m] by simp
  have ih: "days_before_month y m + (if k = 0 then 0 else days_in_month y m) \<le> days_before_month y (m + int k)"
    using Suc by simp
  have "28 \<le> days_in_month y (m + int k)" using m by (intro dim_bounds) simp_all
  then show ?case unfolding step using ih by (cases "k = 0") auto
qed

lemma dbm_less:
  assumes "1 \<le> m" "m < m'" "m' \<le> 12"
  shows "days_before_month y m + days_in_month y m \<le> days_before_month y m'"
  using dbm_mono_aux[of m "nat (m' - m)" y] assms by simp

lemma dbm_range:
  assumes "1 \<le> m" "m \<le> 12"
  shows "0 \<le> days_before_month y m"
    and "days_before_month y m + days_in_month y m \<le> (if is_leap y then 366 else 365)"
  using assms(1,2)
  by (cases m rule: month_cases; simp add: days_before_month_def days_in_month_def DAYS_IN_MONTH_def DAYS_BEFORE_MONTH_def)+


lemma ymd2ord_bounds:
  assumes "1 \<le> m" "m \<le> 12" "1 \<le> d" "d \<le> days_in_month y m"
  shows "days_before_year y < ymd2ord y m d" "ymd2ord y m d \<le> days_before_year (y + 1)"
  using dbm_range[OF assms(1,2), of y] assms(3,4) unfolding ymd2ord_def dby_step
  by (simp_all split: if_splits)

lemma ymd2ord_year_le:
  assumes "1 \<le> m" "m \<le> 12" "1 \<le> d" "d \<le> days_in_month y m"
    and "1 \<le> m'" "m' \<le> 12" "1 \<le> d'" "d' \<le> days_in_month y' m'"
    and "ymd2ord y m d \<le> ymd2ord y' m' d'"
  shows "y \<le> y'"
proof (rule ccontr)
  assume "\<not> y \<le> y'"
  then have "y' + 1 \<le> y" by simp
  then have "days_before_year (y' + 1) \<le> days_before_year y" by (rule dby_mono)
  with ymd2ord_bounds(1)[OF assms(1-4)] ymd2ord_bounds(2)[OF assms(5-8)] assms(9)
  show False by simp
qed

lemma ymd2ord_inj:
  assumes v: "1 \<le> m" "m \<le> 12" "1 \<le> d" "d \<le> days_in_month y m"
    and v': "1 \<le> m'" "m' \<le> 12" "1 \<le> d'" "d' \<le> days_in_month y' m'"
    and eq: "ymd2ord y m d = ymd2ord y' m' d'"
  shows "y = y' \<and> m = m' \<and> d = d'"
proof -
  have "y \<le> y'" using ymd2ord_year_le[OF v v'] eq by simp
  moreover have "y' \<le> y" using ymd2ord_year_le[OF v' v] eq by simp
  ultimately have y: "y = y'" by simp
  have e: "days_before_month y m + d = days_before_month y m' + d'"
    using eq unfolding ymd2ord_def y by simp
  have m: "m = m'"
  proof (rule ccontr)
    assume "m \<noteq> m'"
    then consider "m < m'" | "m' < m" by linarith
    then show False
    proof cases
      case 1
      from dbm_less[OF v(1) 1 v'(2), of y] e v v' y show False by simp
    next
      case 2
      from dbm_less[OF v'(1) 2 v(2), of y] e v v' y show False by simp
    qed
  qed
  with e have "d = d'" by simp
  with y m show ?thesis by simp
qed

lemma toordinal_range:
  assumes "valid_date dt"
  shows "1 \<le> toordinal dt" "toordinal dt \<le> MAXORDINAL"
proof -
  from assms have v: "1 \<le> month dt" "month dt \<le> 12" "1 \<le> day dt"
      "day dt \<le> days_in_month (year dt) (month dt)"
    and y: "1 \<le> year dt" "year dt \<le> 9999"
    unfolding valid_date_def MINYEAR_def MAXYEAR_def by simp_all
  have "days_before_year 1 \<le> days_before_year (year dt)" using y by (intro dby_mono) simp
  with ymd2ord_bounds(1)[OF v] show "1 \<le> toordinal dt"
    unfolding toordinal_def dby_1 by simp
  have "days_before_year (year dt + 1) \<le> days_before_year 10000" using y by (intro dby_mono) simp
  with ymd2ord_bounds(2)[OF v] show "toordinal dt \<le> MAXORDINAL"
    unfolding toordinal_def dby_10000 MAXORDINAL_def by simp
qed

lemma fromordinal_valid:
  assumes "1 \<le> n" "n \<le> MAXORDINAL"
  shows "valid_date (fromordinal n)" "toordinal (fromordinal n) = n"
proof -
  obtain y m d where o: "ord2ymd n = (y, m, d)" by (cases "ord2ymd n") auto
  from ord2ymd_ok[of n] have v: "1 \<le> m" "m \<le> 12" "1 \<le> d" "d \<le> days_in_month y m"
    and e: "ymd2ord y m d = n"
    unfolding o ymd_ok_def by simp_all
  have f: "fromordinal n = \<lparr>year = y, month = m, day = d\<rparr>"
    unfolding fromordinal_def o by simp
  show "toordinal (fromordinal n) = n" unfolding f toordinal_def using e by simp
  have "1 \<le> y"
  proof (rule ccontr)
    assume "\<not> 1 \<le> y"
    then have "days_before_year (y + 1) \<le> days_before_year 1" by (intro dby_mono) simp
    with ymd2ord_bounds(2)[OF v] e assms show False unfolding dby_1 by simp
  qed
  moreover have "y \<le> 9999"
  proof (rule ccontr)
    assume "\<not> y \<le> 9999"
    then have "days_before_year 10000 \<le> days_before_year y" by (intro dby_mono) simp
    with ymd2ord_bounds(1)[OF v] e assms show False unfolding dby_10000 MAXORDINAL_def by simp
  qed
  ultimately show "valid_date (fromordinal n)"
    unfolding f valid_date_def MINYEAR_def MAXYEAR_def using v by simp
qed

lemma fromordinal_toordinal:
  assumes "valid_date dt"
  shows "fromordinal (toordinal dt) = dt"
proof -
  let ?n = "toordinal dt"
  obtain y m d where o: "ord2ymd ?n = (y, m, d)" by (cases "ord2ymd ?n") auto
  from ord2ymd_ok[of ?n] have v: "1 \<le> m" "m \<le> 12" "1 \<le> d" "d \<le> days_in_month y m"
    and e0: "ymd2ord y m d = toordinal dt"
    unfolding o ymd_ok_def by simp_all
  have e: "ymd2ord y m d = ymd2ord (year dt) (month dt) (day dt)"
    using e0 unfolding toordinal_def .
  from assms have v': "1 \<le> month dt" "month dt \<le> 12" "1 \<le> day dt"
      "day dt \<le> days_in_month (year dt) (month dt)"
    unfolding valid_date_def by simp_all
  from ymd2ord_inj[OF v v' e] show ?thesis
    unfolding fromordinal_def o by simp
qed

lemma toordinal_inj:
  assumes "valid_date a" "valid_date b" "toordinal a = toordinal b"
  shows "a = b"
proof -
  have "a = fromordinal (toordinal a)" using fromordinal_toordinal[OF assms(1)] by (rule sym)
  also have "\<dots> = fromordinal (toordinal b)" using assms(3) by (rule arg_cong)
  also have "\<dots> = b" by (rule fromordinal_toordinal[OF assms(2)])
  finally show ?thesis .
qed

lemma toordinal_next_day:
  assumes "valid_date dt"
  shows "toordinal (next_day dt) = toordinal dt + 1"
proof -
  from assms have v: "1 \<le> month dt" "month dt \<le> 12" "1 \<le> day dt"
      "day dt \<le> days_in_month (year dt) (month dt)"
    unfolding valid_date_def by simp_all
  show ?thesis
  proof (cases "day dt < days_in_month (year dt) (month dt)")
    case True
    then show ?thesis unfolding next_day_def toordinal_def ymd2ord_def by simp
  next
    case False
    with v have d: "day dt = days_in_month (year dt) (month dt)" by simp
    show ?thesis
    proof (cases "month dt < 12")
      case True
      from dbm_succ[OF v(1) True, of "year dt"] show ?thesis
        unfolding next_day_def toordinal_def ymd2ord_def using True False d by simp
    next
      case m: False
      with v have m12: "month dt = 12" by simp
      have "toordinal (next_day dt) = days_before_year (year dt + 1) + days_before_month (year dt + 1) 1 + 1"
        unfolding next_day_def toordinal_def ymd2ord_def using m False by simp
      also have "\<dots> = days_before_year (year dt) + (if is_leap (year dt) then 366 else 365) + 1"
        unfolding dby_step dbm_1 by simp
      also have "\<dots> = toordinal dt + 1"
        unfolding toordinal_def ymd2ord_def using dbm_12[of "year dt"] d m12 by simp
      finally show ?thesis .
    qed
  qed
qed

lemma days_in_month_pos: "1 \<le> m \<Longrightarrow> m \<le> 12 \<Longrightarrow> 1 \<le> days_in_month y m"
  using dim_bounds(1)[of m y] by simp

lemma next_day_fields:
  assumes "valid_date dt"
  shows "1 \<le> month (next_day dt)" "month (next_day dt) \<le> 12" "1 \<le> day (next_day dt)"
    "day (next_day dt) \<le> days_in_month (year (next_day dt)) (month (next_day dt))"
    "1 \<le> year (next_day dt)"
  using assms days_in_month_pos[of "month dt + 1" "year dt"] days_in_month_pos[of 1 "year dt + 1"]
  unfolding valid_date_def next_day_def MINYEAR_def by (auto split: if_splits)

lemma next_day_eq_fromordinal:
  assumes "valid_date dt" "toordinal dt < MAXORDINAL"
  shows "next_day dt = fromordinal (toordinal dt + 1)"
proof -
  let ?n = "toordinal dt + 1"
  obtain y m d where o: "ord2ymd ?n = (y, m, d)" by (cases "ord2ymd ?n") auto
  from ord2ymd_ok[of ?n] have v: "1 \<le> m" "m \<le> 12" "1 \<le> d" "d \<le> days_in_month y m"
    and e: "ymd2ord y m d = toordinal dt + 1"
    unfolding o ymd_ok_def by simp_all
  have e': "ymd2ord y m d = ymd2ord (year (next_day dt)) (month (next_day dt)) (day (next_day dt))"
    using e toordinal_next_day[OF assms(1)] unfolding toordinal_def by simp
  from ymd2ord_inj[OF v next_day_fields(1-4)[OF assms(1)] e'] show ?thesis
    unfolding fromordinal_def o by simp
qed

lemma valid_next_day:
  assumes "valid_date dt" "toordinal dt < MAXORDINAL"
  shows "valid_date (next_day dt)"
  unfolding next_day_eq_fromordinal[OF assms]
  using toordinal_range(1)[OF assms(1)] assms(2) by (intro fromordinal_valid) simp_all

section \<open>The handler and its three loops\<close>

lemma get_dashboard_InrD:
  assumes "get_dashboard R now1 now2 req g = Inr r"
  obtains d30 start end_dt ts g1 ns g2 ls g3 where
    "add_days now1 (- 30) = Inr d30"
    "strptime (args_get (arg_from req) (strftime d30)) = Inr start"
    "strptime (args_get (arg_to req) (strftime now2)) = Inr end_dt"
    "time_series_loop R start (py_range (sub_days end_dt start + 1)) g = Inr (ts, g1)"
    "nodes_loop R (py_range 40) g1 = (ns, g2)"
    "links_loop R ns (py_range 80) g2 = Inr (ls, g3)"
    "r = \<lparr>timeSeries = ts, topics = static_topics, emotions = static_emotions,
          graph = \<lparr>nodes = ns, links = ls\<rparr>,
          meta = \<lparr>meta_from = args_get (arg_from req) (strftime d30),
                  meta_to = args_get (arg_to req) (strftime now2),
                  meta_platform = args_get (arg_platform req) ''twitter''\<rparr>\<rparr>"
  using assms unfolding get_dashboard_def Let_def
  by (auto split: sum.splits prod.splits)

lemma get_dashboard_InrI:
  assumes "add_days now1 (- 30) = Inr d30"
    "strptime (args_get (arg_from req) (strftime d30)) = Inr start"
    "strptime (args_get (arg_to req) (strftime now2)) = Inr end_dt"
    "time_series_loop R start (py_range (sub_days end_dt start + 1)) g = Inr (ts, g1)"
    "nodes_loop R (py_range 40) g1 = (ns, g2)"
    "links_loop R ns (py_range 80) g2 = Inr (ls, g3)"
  shows "get_dashboard R now1 now2 req g =
     Inr \<lparr>timeSeries = ts, topics = static_topics, emotions = static_emotions,
          graph = \<lparr>nodes = ns, links = ls\<rparr>,
          meta = \<lparr>meta_from = args_get (arg_from req) (strftime d30),
                  meta_to = args_get (arg_to req) (strftime now2),
                  meta_platform = args_get (arg_platform req) ''twitter''\<rparr>\<rparr>"
  unfolding get_dashboard_def Let_def using assms by simp

lemma rnd_random_range:
  assumes "random_contract R" "rnd_random R g = (u, g')"
  shows "0 \<le> u" "u < 1"
  using assms unfolding random_contract_def by (metis fst_conv)+

lemma rnd_randint_range:
  assumes "random_contract R" "rnd_randint R a b g = (k, g')" "a \<le> b"
  shows "a \<le> k" "k \<le> b"
  using assms unfolding random_contract_def by (metis fst_conv)+

lemma rnd_sample_props:
  assumes "random_contract R" "rnd_sample R n k g = (idx, g')" "k \<le> n"
  shows "length idx = k" "distinct idx" "\<forall>i \<in> set idx. i < n"
  using assms unfolding random_contract_def by (metis fst_conv)+

lemma time_series_loop_length:
  "time_series_loop R start is g = Inr (ps, g') \<Longrightarrow> length ps = length is"
proof (induction "is" arbitrary: g ps)
  case Nil
  then show ?case by simp
next
  case (Cons i "is")
  then show ?case
    by (auto simp: Let_def split: sum.splits prod.splits)
qed

lemma time_series_loop_dates:
  "time_series_loop R start is g = Inr (ps, g') \<Longrightarrow>
   map (\<lambda>p. Inr (date p)) ps = map (\<lambda>i. map_sum id strftime (add_days start i)) is"
proof (induction "is" arbitrary: g ps)
  case Nil
  then show ?case by simp
next
  case (Cons i "is")
  then show ?case
    by (auto simp: Let_def split: sum.splits prod.splits)
qed

lemma time_series_loop_returns:
  "(\<forall>i \<in> set is. \<exists>d. add_days start i = Inr d) \<Longrightarrow> \<exists>ps g'. time_series_loop R start is g = Inr (ps, g')"
proof (induction "is" arbitrary: g)
  case Nil
  then show ?case by simp
next
  case (Cons i "is")
  from Cons.prems obtain d where d: "add_days start i = Inr d" by auto
  obtain u1 g1 where r1: "rnd_random R g = (u1, g1)" by (cases "rnd_random R g")
  obtain u2 g2 where r2: "rnd_random R g1 = (u2, g2)" by (cases "rnd_random R g1")
  obtain u3 g3 where r3: "rnd_random R g2 = (u3, g3)" by (cases "rnd_random R g2")
  obtain u4 g4 where r4: "rnd_random R g3 = (u4, g4)" by (cases "rnd_random R g3")
  from Cons.prems have "\<forall>i \<in> set is. \<exists>d. add_days start i = Inr d" by simp
  from Cons.IH[OF this, of g4] obtain ps g' where "time_series_loop R start is g4 = Inr (ps, g')"
    by blast
  then show ?case using d r1 r2 r3 r4 by (simp add: Let_def)
qed

lemma py_round_mono_lower:
  assumes "of_int k \<le> x"
  shows "k \<le> py_round x"
proof -
  have "k \<le> \<lfloor>x\<rfloor>" using assms by (simp add: le_floor_iff)
  then show ?thesis unfolding py_round_def Let_def by auto
qed

lemma sin_cos_bounds:
  fixes x :: real
  shows "- 1 \<le> sin x" "sin x \<le> 1" "- 1 \<le> cos x" "cos x \<le> 1"
  by simp_all

lemma emotion_range:
  fixes t u :: real
  assumes "t \<le> 1" "0 \<le> u" "u < 1"
  shows "0 \<le> max 0 ((t + u * 0.6) / 2)" "max 0 ((t + u * 0.6) / 2) \<le> 0.8"
  using assms by (simp_all add: max_def)

lemma count_range:
  fixes t u :: real
  assumes "- 1 \<le> t" "0 \<le> u"
  shows "160 \<le> py_round (200 + 40 * t + u * 60)"
proof -
  have "0 \<le> u * 60" using assms(2) by simp
  with assms(1) have "of_int 160 \<le> 200 + 40 * t + u * 60" by simp
  then show ?thesis by (rule py_round_mono_lower)
qed

lemma time_series_loop_values:
  assumes "random_contract R"
  shows "time_series_loop R start is g = Inr (ps, g') \<Longrightarrow> p \<in> set ps \<Longrightarrow>
     160 \<le> count p \<and> 0 \<le> anxiety p \<and> anxiety p \<le> 0.8 \<and> 0 \<le> sadness p \<and> sadness p \<le> 0.8
     \<and> 0 \<le> joy p \<and> joy p \<le> 0.8"
proof (induction "is" arbitrary: g ps)
  case Nil
  then show ?case by simp
next
  case (Cons i "is")
  obtain u1 g1 where r1: "rnd_random R g = (u1, g1)" by (cases "rnd_random R g")
  obtain u2 g2 where r2: "rnd_random R g1 = (u2, g2)" by (cases "rnd_random R g1")
  obtain u3 g3 where r3: "rnd_random R g2 = (u3, g3)" by (cases "rnd_random R g2")
  obtain u4 g4 where r4: "rnd_random R g3 = (u4, g4)" by (cases "rnd_random R g3")
  note b = rnd_random_range[OF assms r1] rnd_random_range[OF assms r2]
    rnd_random_range[OF assms r3] rnd_random_range[OF assms r4]
  from Cons.prems(1) obtain d ps' where d: "add_days start i = Inr d"
    and rest: "time_series_loop R start is g4 = Inr (ps', g')"
    and ps: "ps = \<lparr>date = strftime d,
        count = py_round (200 + 40 * sin (of_int i / 6) + u1 * 60),
        anxiety = max 0 ((sin (of_int i / 7 + 0.5) + u2 * 0.6) / 2),
        sadness = max 0 ((cos (of_int i / 8) + u3 * 0.6) / 2),
        joy = max 0 ((cos (of_int i / 5 + 1) + u4 * 0.6) / 2)\<rparr> # ps'"
    using r1 r2 r3 r4 by (auto simp: Let_def split: sum.splits)
  show ?case
  proof (cases "p \<in> set ps'")
    case True
    with Cons.IH[OF rest] show ?thesis by simp
  next
    case False
    with Cons.prems(2) ps have p: "p = \<lparr>date = strftime d,
        count = py_round (200 + 40 * sin (of_int i / 6) + u1 * 60),
        anxiety = max 0 ((sin (of_int i / 7 + 0.5) + u2 * 0.6) / 2),
        sadness = max 0 ((cos (of_int i / 8) + u3 * 0.6) / 2),
        joy = max 0 ((cos (of_int i / 5 + 1) + u4 * 0.6) / 2)\<rparr>" by simp
    have c: "160 \<le> count p" unfolding p using b(1) by (simp add: count_range)
    have a: "0 \<le> anxiety p \<and> anxiety p \<le> 0.8" unfolding p
      using emotion_range[OF sin_cos_bounds(2) b(3,4)] by simp
    have s: "0 \<le> sadness p \<and> sadness p \<le> 0.8" unfolding p
      using emotion_range[OF sin_cos_bounds(4) b(5,6)] by simp
    have j: "0 \<le> joy p \<and> joy p \<le> 0.8" unfolding p
      using emotion_range[OF sin_cos_bounds(4) b(7,8)] by simp
    from c a s j show ?thesis by simp
  qed
qed

lemma nodes_loop_length:
  "nodes_loop R is g = (ns, g') \<Longrightarrow> length ns = length is"
proof (induction "is" arbitrary: g ns)
  case Nil
  then show ?case by simp
next
  case (Cons i "is")
  then show ?case
    by (auto simp: Let_def split: prod.splits)
qed

lemma nodes_loop_ids:
  "nodes_loop R is g = (ns, g') \<Longrightarrow> map node_id ns = map (\<lambda>i. ''user_'' @ str_nat (nat i)) is"
proof (induction "is" arbitrary: g ns)
  case Nil
  then show ?case by simp
next
  case (Cons i "is")
  then show ?case
    by (auto simp: Let_def split: prod.splits)
qed

lemma sentiment_range:
  fixes u :: real
  assumes "0 \<le> u" "u < 1"
  shows "- 0.8 \<le> (u - 0.5) * 1.6" "(u - 0.5) * 1.6 \<le> 0.8"
  using assms by simp_all

lemma nodes_loop_values:
  assumes "random_contract R"
  shows "nodes_loop R is g = (ns, g') \<Longrightarrow> n \<in> set ns \<Longrightarrow>
     1 \<le> degree n \<and> degree n \<le> 10 \<and> - 0.8 \<le> sentiment n \<and> sentiment n \<le> 0.8"
proof (induction "is" arbitrary: g ns)
  case Nil
  then show ?case by simp
next
  case (Cons i "is")
  obtain dg g1 where r1: "rnd_randint R 1 10 g = (dg, g1)" by (cases "rnd_randint R 1 10 g")
  obtain u g2 where r2: "rnd_random R g1 = (u, g2)" by (cases "rnd_random R g1")
  obtain ns' g3 where rest0: "nodes_loop R is g2 = (ns', g3)" by (cases "nodes_loop R is g2")
  from Cons.prems(1) have ns: "ns = \<lparr>node_id = ''user_'' @ str_nat (nat i), degree = dg,
      sentiment = (u - 0.5) * 1.6\<rparr> # ns'" and "g3 = g'"
    using r1 r2 rest0 by (simp_all add: Let_def)
  with rest0 have rest: "nodes_loop R is g2 = (ns', g')" by simp
  have dg: "1 \<le> dg" "dg \<le> 10" using rnd_randint_range[OF assms r1] by simp_all
  note u = rnd_random_range[OF assms r2]
  show ?case
  proof (cases "n \<in> set ns'")
    case True
    with Cons.IH[OF rest] show ?thesis by simp
  next
    case False
    with Cons.prems(2) ns have "n = \<lparr>node_id = ''user_'' @ str_nat (nat i), degree = dg,
      sentiment = (u - 0.5) * 1.6\<rparr>" by simp
    then show ?thesis using dg sentiment_range[OF u] by simp
  qed
qed

lemma sample2:
  assumes "random_contract R" "2 \<le> length xs"
  shows "\<exists>i j g'. sample R xs 2 g = Inr ([xs ! i, xs ! j], g') \<and> i < length xs \<and> j < length xs \<and> i \<noteq> j"
proof -
  obtain idx g' where s: "rnd_sample R (length xs) 2 g = (idx, g')"
    by (cases "rnd_sample R (length xs) 2 g")
  note p = rnd_sample_props[OF assms(1) s assms(2)]
  from p(1) obtain i j where idx: "idx = [i, j]"
    by (cases idx; simp) (metis Suc_length_conv length_0_conv)
  from p(2,3) idx have "i < length xs" "j < length xs" "i \<noteq> j" by simp_all
  moreover have "sample R xs 2 g = Inr ([xs ! i, xs ! j], g')"
    unfolding sample_def using assms(2) s idx by simp
  ultimately show ?thesis by blast
qed

lemma links_loop_returns:
  assumes "random_contract R" "2 \<le> length ns"
  shows "\<exists>ls g'. links_loop R ns is g = Inr (ls, g')"
proof (induction "is" arbitrary: g)
  case Nil
  then show ?case by simp
next
  case (Cons i "is")
  from sample2[OF assms, of g] obtain a b g1 where s: "sample R ns 2 g = Inr ([a, b], g1)" by blast
  obtain u g2 where r: "rnd_random R g1 = (u, g2)" by (cases "rnd_random R g1")
  from Cons[of g2] obtain ls g' where "links_loop R ns is g2 = Inr (ls, g')" by blast
  then show ?case using s r by (simp add: Let_def)
qed

lemma links_loop_length:
  "links_loop R ns is g = Inr (ls, g') \<Longrightarrow> length ls = length is"
proof (induction "is" arbitrary: g ls)
  case Nil
  then show ?case by simp
next
  case (Cons i "is")
  then show ?case
    by (auto simp: Let_def split: sum.splits prod.splits list.splits)
qed

lemma links_loop_values:
  assumes "random_contract R" "2 \<le> length ns"
  shows "links_loop R ns is g = Inr (ls, g') \<Longrightarrow> l \<in> set ls \<Longrightarrow>
     \<exists>i j. i < length ns \<and> j < length ns \<and> i \<noteq> j \<and>
       source l = node_id (ns ! i) \<and> target l = node_id (ns ! j) \<and>
       0 \<le> link_value l \<and> link_value l < 1"
proof (induction "is" arbitrary: g ls)
  case Nil
  then show ?case by simp
next
  case (Cons k "is")
  from sample2[OF assms, of g] obtain i j g1 where s: "sample R ns 2 g = Inr ([ns ! i, ns ! j], g1)"
    and ij: "i < length ns" "j < length ns" "i \<noteq> j" by blast
  obtain u g2 where r: "rnd_random R g1 = (u, g2)" by (cases "rnd_random R g1")
  note u = rnd_random_range[OF assms(1) r]
  from Cons.prems(1) obtain ls' where rest: "links_loop R ns is g2 = Inr (ls', g')"
    and ls: "ls = \<lparr>source = node_id (ns ! i), target = node_id (ns ! j), link_value = u\<rparr> # ls'"
    using s r by (auto simp: Let_def split: sum.splits)
  show ?case
  proof (cases "l \<in> set ls'")
    case True
    with Cons.IH[OF rest] show ?thesis by simp
  next
    case False
    with Cons.prems(2) ls have "l = \<lparr>source = node_id (ns ! i), target = node_id (ns ! j), link_value = u\<rparr>"
      by simp
    then show ?thesis using ij u by auto
  qed
qed

lemma user_ids_distinct: "distinct (map (\<lambda>i. ''user_'' @ str_nat (nat i)) (py_range 40))"
  unfolding py_range_def by code_simp

section \<open>Parsed dates, their order and runs of days\<close>

lemma datetime_new_valid: "datetime_new y m d = Inr dt \<Longrightarrow> valid_date dt"
  unfolding datetime_new_def valid_date_def by (auto split: if_splits)

lemma datetime_new_error: "datetime_new y m d = Inl e \<Longrightarrow> e = ValueError"
  unfolding datetime_new_def by (auto split: if_splits)

lemma strptime_valid: "strptime s = Inr dt \<Longrightarrow> valid_date dt"
  unfolding strptime_def
  by (auto split: option.splits if_splits list.splits dest: datetime_new_valid)

lemma strptime_error: "strptime s = Inl e \<Longrightarrow> e = ValueError"
  unfolding strptime_def
  by (auto split: option.splits if_splits list.splits dest: datetime_new_error)

lemma toordinal_less:
  assumes "valid_date a" "valid_date b" "date_less a b"
  shows "toordinal a < toordinal b"
proof -
  from assms(1) have va: "1 \<le> month a" "month a \<le> 12" "1 \<le> day a"
      "day a \<le> days_in_month (year a) (month a)"
    unfolding valid_date_def by simp_all
  from assms(2) have vb: "1 \<le> month b" "month b \<le> 12" "1 \<le> day b"
      "day b \<le> days_in_month (year b) (month b)"
    unfolding valid_date_def by simp_all
  from assms(3) consider "year a < year b"
    | "year a = year b" "month a < month b"
    | "year a = year b" "month a = month b" "day a < day b"
    unfolding date_less_def by blast
  then show ?thesis
  proof cases
    case 1
    then have "days_before_year (year a + 1) \<le> days_before_year (year b)"
      by (intro dby_mono) simp
    with ymd2ord_bounds(2)[OF va] ymd2ord_bounds(1)[OF vb] show ?thesis
      unfolding toordinal_def by simp
  next
    case 2
    from dbm_less[OF va(1) 2(2) vb(2), of "year a"] va vb 2(1) show ?thesis
      unfolding toordinal_def ymd2ord_def by simp
  next
    case 3
    then show ?thesis unfolding toordinal_def ymd2ord_def by simp
  qed
qed

lemma date_less_iff:
  assumes "valid_date a" "valid_date b"
  shows "date_less a b = (toordinal a < toordinal b)"
proof
  assume "date_less a b"
  then show "toordinal a < toordinal b" by (rule toordinal_less[OF assms])
next
  assume lt: "toordinal a < toordinal b"
  show "date_less a b"
  proof (rule ccontr)
    assume n: "\<not> date_less a b"
    have "a = b \<or> date_less b a"
    proof (cases "year a = year b \<and> month a = month b \<and> day a = day b")
      case True
      then have "a = b" by simp
      then show ?thesis by simp
    next
      case False
      with n have "date_less b a" unfolding date_less_def by auto
      then show ?thesis by simp
    qed
    then show False
    proof
      assume "a = b"
      with lt show False by simp
    next
      assume "date_less b a"
      from toordinal_less[OF assms(2,1) this] lt show False by simp
    qed
  qed
qed

lemma add_days_Inr:
  assumes "0 < toordinal s + k" "toordinal s + k \<le> MAXORDINAL"
  shows "add_days s k = Inr (fromordinal (toordinal s + k))"
  using assms unfolding add_days_def Let_def by simp

lemma fromordinal_run:
  assumes "valid_date s"
  shows "toordinal s + int k - 1 \<le> MAXORDINAL \<Longrightarrow>
     map (\<lambda>i. fromordinal (toordinal s + int i)) [0..<k] = day_run s k"
  using assms
proof (induction k arbitrary: s)
  case 0
  then show ?case by simp
next
  case (Suc k)
  show ?case
  proof (cases k)
    case 0
    then show ?thesis using fromordinal_toordinal[OF Suc.prems(2)] by simp
  next
    case (Suc k')
    with Suc.prems(1) have lt: "toordinal s < MAXORDINAL" by simp
    note v = valid_next_day[OF Suc.prems(2) lt]
    note t = toordinal_next_day[OF Suc.prems(2)]
    have ih: "map (\<lambda>i. fromordinal (toordinal (next_day s) + int i)) [0..<k] = day_run (next_day s) k"
      using Suc.prems(1) t by (intro Suc.IH v) simp
    have eq: "toordinal s + int (Suc i) = toordinal (next_day s) + int i" for i
      using t by simp
    have "map (\<lambda>i. fromordinal (toordinal s + int i)) [0..<Suc k]
        = fromordinal (toordinal s + int 0) # map (\<lambda>i. fromordinal (toordinal s + int (Suc i))) [0..<k]"
      unfolding upt_conv_Cons[OF zero_less_Suc] map_Suc_upt[symmetric] list.map map_map o_def ..
    also have "\<dots> = s # day_run (next_day s) k"
      unfolding eq ih using fromordinal_toordinal[OF Suc.prems(2)] by simp
    finally show ?thesis by simp
  qed
qed

lemma day_run_length: "length (day_run s k) = k"
  by (induction k arbitrary: s) simp_all

lemma day_run_hd: "0 < k \<Longrightarrow> hd (day_run s k) = s"
  by (cases k) simp_all

lemma day_run_nth_Suc:
  "Suc i < k \<Longrightarrow> day_run s k ! Suc i = next_day (day_run s k ! i)"
proof (induction k arbitrary: s i)
  case 0
  then show ?case by simp
next
  case (Suc k)
  show ?case
  proof (cases i)
    case 0
    with Suc.prems obtain k' where "k = Suc k'" by (cases k) auto
    with 0 show ?thesis by simp
  next
    case (Suc i')
    with Suc.prems have "Suc i' < k" by simp
    from Suc.IH[OF this, of "next_day s"] Suc show ?thesis by simp
  qed
qed

section \<open>Parsing a formatted date gives the date back\<close>

lemma of_char_digit_char:
  assumes "0 \<le> k" "k \<le> 9"
  shows "(of_char (digit_char k) :: nat) = 48 + nat k"
proof -
  have "48 + nat k < 256" using assms by simp
  then show ?thesis unfolding digit_char_def by (simp add: of_char_of)
qed

lemma digit_val_digit_char:
  assumes "0 \<le> k" "k \<le> 9"
  shows "digit_val (digit_char k) = k"
  unfolding digit_val_def of_char_digit_char[OF assms] using assms by simp

lemma in_range_digit_char:
  assumes "0 \<le> k" "k \<le> 9"
  shows "in_range lo hi (digit_char k) = ((of_char lo :: nat) \<le> 48 + nat k \<and> 48 + nat k \<le> (of_char hi :: nat))"
  unfolding in_range_def of_char_digit_char[OF assms] ..

lemma lit_digit_char:
  assumes "0 \<le> k" "k \<le> 9"
  shows "lit c (digit_char k) = ((of_char c :: nat) = 48 + nat k)"
proof -
  have "(digit_char k = c) = ((of_char (digit_char k) :: nat) = of_char c)"
    by (simp add: of_char_eq_iff)
  then show ?thesis unfolding lit_def of_char_digit_char[OF assms] by auto
qed

lemma digit_digit_char:
  assumes "0 \<le> k" "k \<le> 9"
  shows "digit (digit_char k)"
  unfolding digit_def in_range_digit_char[OF assms] using assms by simp

lemma digit_char_not_blank:
  assumes "0 \<le> k" "k \<le> 9"
  shows "digit_char k \<noteq> CHR '' ''"
proof
  assume "digit_char k = CHR '' ''"
  then have "(of_char (digit_char k) :: nat) = of_char (CHR '' '')" by simp
  then show False unfolding of_char_digit_char[OF assms] by simp
qed

lemma py_int_2:
  assumes "0 \<le> a" "a \<le> 9" "0 \<le> b" "b \<le> 9"
  shows "py_int [digit_char a, digit_char b] = 10 * a + b"
  unfolding py_int_def
  using digit_char_not_blank[OF assms(1,2)]
  by (simp add: digit_val_digit_char assms)

lemma py_int_4:
  assumes "0 \<le> a" "a \<le> 9" "0 \<le> b" "b \<le> 9" "0 \<le> c" "c \<le> 9" "0 \<le> d" "d \<le> 9"
  shows "py_int [digit_char a, digit_char b, digit_char c, digit_char d] = 1000 * a + 100 * b + 10 * c + d"
  unfolding py_int_def
  using digit_char_not_blank[OF assms(1,2)]
  by (simp add: digit_val_digit_char assms)

lemma pad2_digits:
  fixes k :: int
  assumes "0 \<le> k" "k \<le> 99"
  shows "0 \<le> k div 10" "k div 10 \<le> 9" "0 \<le> k mod 10" "k mod 10 \<le> 9"
  using assms by presburger+

lemma py_int_pad2:
  assumes "0 \<le> k" "k \<le> 99"
  shows "py_int (pad2 k) = k"
  unfolding pad2_def py_int_2[OF pad2_digits[OF assms]] by simp

lemma re_match_single:
  "re_match [a] (g # gs) s =
     (case match_seq a s of
        None \<Rightarrow> None
      | Some (m, r) \<Rightarrow>
          (case re_match g gs r of None \<Rightarrow> None | Some (ms, r') \<Rightarrow> Some (m # ms, r')))"
  by (simp split: option.splits)

lemma match_d:
  assumes "1 \<le> d" "d \<le> 31"
  shows "re_match re_d [] (pad2 d) = Some ([pad2 d], [])"
proof -
  define a b where "a = d div 10" and "b = d mod 10"
  have d: "d = 10 * a + b" unfolding a_def b_def by simp
  have ab: "0 \<le> a" "a \<le> 9" "0 \<le> b" "b \<le> 9"
    unfolding a_def b_def using assms by (intro pad2_digits; simp)+
  have a3: "a \<le> 3" using d assms ab by simp
  have na: "nat a = 0 \<or> nat a = 1 \<or> nat a = 2 \<or> nat a = 3" using ab a3 by auto
  have c0: "a = 0 \<Longrightarrow> 1 \<le> b" using d assms by simp
  have c3: "a = 3 \<Longrightarrow> b \<le> 1" using d assms by simp
  have p: "pad2 d = [digit_char a, digit_char b]" unfolding pad2_def a_def b_def ..
  consider "a = 0" | "a = 1" | "a = 2" | "a = 3" using ab a3 by linarith
  then show ?thesis
  proof cases
    case 1
    with c0 ab show ?thesis unfolding p re_d_def digit_def
      by (auto simp add: in_range_digit_char lit_digit_char)
  next
    case 2
    with ab show ?thesis unfolding p re_d_def digit_def
      by (auto simp add: in_range_digit_char lit_digit_char)
  next
    case 3
    with ab show ?thesis unfolding p re_d_def digit_def
      by (auto simp add: in_range_digit_char lit_digit_char)
  next
    case 4
    with c3 ab show ?thesis unfolding p re_d_def digit_def
      by (auto simp add: in_range_digit_char lit_digit_char)
  qed
qed

lemma match_m:
  assumes "1 \<le> m" "m \<le> 12" "re_match g gs rest = Some (ms, r')"
  shows "re_match re_m (g # gs) (pad2 m @ rest) = Some (pad2 m # ms, r')"
proof -
  define a b where "a = m div 10" and "b = m mod 10"
  have m: "m = 10 * a + b" unfolding a_def b_def by simp
  have ab: "0 \<le> a" "a \<le> 9" "0 \<le> b" "b \<le> 9"
    unfolding a_def b_def using assms by (intro pad2_digits; simp)+
  have a1: "a \<le> 1" using m assms ab by simp
  have c0: "a = 0 \<Longrightarrow> 1 \<le> b" using m assms by simp
  have c1: "a = 1 \<Longrightarrow> b \<le> 2" using m assms by simp
  have p: "pad2 m = [digit_char a, digit_char b]" unfolding pad2_def a_def b_def ..
  consider "a = 0" | "a = 1" using ab a1 by linarith
  then show ?thesis
  proof cases
    case 1
    with c0 ab assms(3) show ?thesis unfolding p re_m_def
      by (auto simp add: in_range_digit_char lit_digit_char)
  next
    case 2
    with c1 ab assms(3) show ?thesis unfolding p re_m_def
      by (auto simp add: in_range_digit_char lit_digit_char)
  qed
qed

lemma match_dash:
  assumes "re_match g gs rest = Some (ms, r')"
  shows "re_match re_dash (g # gs) (CHR ''-'' # rest) = Some (''-'' # ms, r')"
  unfolding re_dash_def using assms by (simp add: lit_def)

lemma match_Y:
  assumes "0 \<le> a" "a \<le> 9" "0 \<le> b" "b \<le> 9" "0 \<le> c" "c \<le> 9" "0 \<le> d" "d \<le> 9"
    and "re_match g gs rest = Some (ms, r')"
  shows "re_match re_Y (g # gs) ([digit_char a, digit_char b, digit_char c, digit_char d] @ rest)
     = Some ([digit_char a, digit_char b, digit_char c, digit_char d] # ms, r')"
  unfolding re_Y_def using assms(9)
  by (simp add: digit_digit_char assms(1-8))

lemma nat_digits:
  fixes n :: nat
  assumes "1000 \<le> n" "n < 10000"
  obtains q1 q2 q3 d0 d1 d2 where
    "q1 = n div 10" "q2 = q1 div 10" "q3 = q2 div 10"
    "d0 = n mod 10" "d1 = q1 mod 10" "d2 = q2 mod 10"
    "n = 1000 * q3 + 100 * d2 + 10 * d1 + d0"
    "100 \<le> q1" "10 \<le> q2" "1 \<le> q3" "q3 < 10" "d0 < 10" "d1 < 10" "d2 < 10"
proof -
  define q1 q2 q3 where "q1 = n div 10" and "q2 = q1 div 10" and "q3 = q2 div 10"
  define d0 d1 d2 where "d0 = n mod 10" and "d1 = q1 mod 10" and "d2 = q2 mod 10"
  have e: "n = 10 * q1 + d0" "q1 = 10 * q2 + d1" "q2 = 10 * q3 + d2"
    unfolding q1_def q2_def q3_def d0_def d1_def d2_def by simp_all
  have l: "d0 < 10" "d1 < 10" "d2 < 10"
    unfolding d0_def d1_def d2_def by simp_all
  have s: "n = 1000 * q3 + 100 * d2 + 10 * d1 + d0" using e by linarith
  have b: "100 \<le> q1" "10 \<le> q2" "1 \<le> q3" "q3 < 10" using e l assms by linarith+
  show ?thesis
    by (rule that[OF q1_def q2_def q3_def d0_def d1_def d2_def s b l])
qed

lemma year_digits:
  fixes y :: int
  assumes "1000 \<le> y" "y \<le> 9999"
  obtains a b c d where "0 \<le> a" "a \<le> 9" "0 \<le> b" "b \<le> 9" "0 \<le> c" "c \<le> 9" "0 \<le> d" "d \<le> 9"
    "str_nat (nat y) = [digit_char a, digit_char b, digit_char c, digit_char d]"
    "y = 1000 * a + 100 * b + 10 * c + d"
proof -
  define n where "n = nat y"
  have n: "1000 \<le> n" "n < 10000" "y = int n" unfolding n_def using assms by simp_all
  from nat_digits[OF n(1,2)] obtain q1 q2 q3 d0 d1 d2 where
    q: "q1 = n div 10" "q2 = q1 div 10" "q3 = q2 div 10"
    and d: "d0 = n mod 10" "d1 = q1 mod 10" "d2 = q2 mod 10"
    and s: "n = 1000 * q3 + 100 * d2 + 10 * d1 + d0"
    and b: "100 \<le> q1" "10 \<le> q2" "1 \<le> q3" "q3 < 10" "d0 < 10" "d1 < 10" "d2 < 10"
    by blast
  have s1: "str_nat n = str_nat q1 @ [digit_char (int d0)]"
    using n(1) by (subst str_nat.simps) (simp add: q d)
  have s2: "str_nat q1 = str_nat q2 @ [digit_char (int d1)]"
    using b(1) by (subst str_nat.simps) (simp add: q d)
  have s3: "str_nat q2 = str_nat q3 @ [digit_char (int d2)]"
    using b(2) by (subst str_nat.simps) (simp add: q d)
  have s4: "str_nat q3 = [digit_char (int q3)]"
    using b(4) by (subst str_nat.simps) simp
  have str: "str_nat (nat y) = [digit_char (int q3), digit_char (int d2), digit_char (int d1), digit_char (int d0)]"
    unfolding n_def[symmetric] s1 s2 s3 s4 by simp
  have "int n = 1000 * int q3 + 100 * int d2 + 10 * int d1 + int d0"
    using s by linarith
  then have y: "y = 1000 * int q3 + 100 * int d2 + 10 * int d1 + int d0"
    using n(3) by simp
  have r: "0 \<le> int q3" "int q3 \<le> 9" "0 \<le> int d2" "int d2 \<le> 9" "0 \<le> int d1" "int d1 \<le> 9"
      "0 \<le> int d0" "int d0 \<le> 9"
    using b by simp_all
  show ?thesis by (rule that[OF r str y])
qed

lemma strptime_strftime:
  assumes "valid_date dt" "1000 \<le> year dt"
  shows "strptime (strftime dt) = Inr dt"
proof -
  from assms(1) have v: "1 \<le> year dt" "year dt \<le> 9999" "1 \<le> month dt" "month dt \<le> 12"
      "1 \<le> day dt" "day dt \<le> days_in_month (year dt) (month dt)"
    unfolding valid_date_def MINYEAR_def MAXYEAR_def by simp_all
  from dim_bounds(2)[OF v(3,4), of "year dt"] v(6) have d31: "day dt \<le> 31" by simp
  from year_digits[OF assms(2) v(2)] obtain a b c d
    where r: "0 \<le> a" "a \<le> 9" "0 \<le> b" "b \<le> 9" "0 \<le> c" "c \<le> 9" "0 \<le> d" "d \<le> 9"
      and s: "str_nat (nat (year dt)) = [digit_char a, digit_char b, digit_char c, digit_char d]"
      and y: "year dt = 1000 * a + 100 * b + 10 * c + d"
    by blast
  let ?Y = "[digit_char a, digit_char b, digit_char c, digit_char d]"
  have f: "strftime dt = ?Y @ (CHR ''-'' # (pad2 (month dt) @ (CHR ''-'' # pad2 (day dt))))"
    unfolding strftime_def s by simp
  note m1 = match_d[OF v(5) d31]
  note m2 = match_dash[OF m1]
  note m3 = match_m[OF v(3,4) m2]
  note m4 = match_dash[OF m3]
  note m5 = match_Y[OF r m4]
  have iy: "py_int ?Y = year dt" unfolding y by (rule py_int_4[OF r])
  have im: "py_int (pad2 (month dt)) = month dt" using v(3,4) by (intro py_int_pad2) simp_all
  have id: "py_int (pad2 (day dt)) = day dt" using v(5) d31 by (intro py_int_pad2) simp_all
  have n: "datetime_new (year dt) (month dt) (day dt) = Inr dt"
    unfolding datetime_new_def MINYEAR_def MAXYEAR_def using v by simp
  show ?thesis
    unfolding strptime_def f m5 by (simp add: iy im id n)
qed

section \<open>When the handler returns, and what it returns\<close>

lemma clock_ok_sub30:
  assumes "clock_ok now1"
  shows "add_days now1 (- 30) = Inr (fromordinal (toordinal now1 - 30))"
proof -
  from assms have v: "valid_date now1" and lo: "30 < toordinal now1"
    unfolding clock_ok_def by simp_all
  from toordinal_range(2)[OF v] lo show ?thesis
    using add_days_Inr[of now1 "- 30"] by simp
qed

lemma py_range_set: "i \<in> set (py_range n) \<Longrightarrow> 0 \<le> i \<and> i < n"
  unfolding py_range_def by auto

lemma py_range_length: "length (py_range n) = nat n"
  unfolding py_range_def by simp

lemma time_series_loop_range_returns:
  assumes "valid_date start" "valid_date end_dt"
  shows "\<exists>ps g'. time_series_loop R start (py_range (sub_days end_dt start + 1)) g = Inr (ps, g')"
proof (rule time_series_loop_returns, rule ballI)
  fix i assume "i \<in> set (py_range (sub_days end_dt start + 1))"
  then have i: "0 \<le> i" "i < sub_days end_dt start + 1" by (auto dest: py_range_set)
  from i toordinal_range(1)[OF assms(1)] toordinal_range(2)[OF assms(2)]
  have "0 < toordinal start + i" "toordinal start + i \<le> MAXORDINAL"
    unfolding sub_days_def by simp_all
  then show "\<exists>d. add_days start i = Inr d" by (auto dest: add_days_Inr)
qed

lemma get_dashboard_returns:
  assumes R: "random_contract R" and c: "clock_ok now1"
    and s: "strptime (resolved_from now1 req) = Inr start"
    and e: "strptime (resolved_to now2 req) = Inr end_dt"
  shows "\<exists>ts g1 ns g2 ls g3.
     time_series_loop R start (py_range (sub_days end_dt start + 1)) g = Inr (ts, g1) \<and>
     nodes_loop R (py_range 40) g1 = (ns, g2) \<and>
     links_loop R ns (py_range 80) g2 = Inr (ls, g3) \<and>
     get_dashboard R now1 now2 req g =
       Inr \<lparr>timeSeries = ts, topics = static_topics, emotions = static_emotions,
            graph = \<lparr>nodes = ns, links = ls\<rparr>,
            meta = \<lparr>meta_from = resolved_from now1 req, meta_to = resolved_to now2 req,
                    meta_platform = resolved_platform req\<rparr>\<rparr>"
proof -
  from time_series_loop_range_returns[OF strptime_valid[OF s] strptime_valid[OF e], of R g]
  obtain ts g1 where ts: "time_series_loop R start (py_range (sub_days end_dt start + 1)) g = Inr (ts, g1)"
    by blast
  obtain ns g2 where ns: "nodes_loop R (py_range 40) g1 = (ns, g2)"
    by (cases "nodes_loop R (py_range 40) g1")
  from nodes_loop_length[OF ns] have "2 \<le> length ns" by (simp add: py_range_length)
  from links_loop_returns[OF R this, of "py_range 80" g2]
  obtain ls g3 where ls: "links_loop R ns (py_range 80) g2 = Inr (ls, g3)" by blast
  from get_dashboard_InrI[OF clock_ok_sub30[OF c] s[unfolded resolved_from_def]
      e[unfolded resolved_to_def] ts ns ls]
  show ?thesis using ts ns ls
    unfolding resolved_from_def resolved_to_def resolved_platform_def by blast
qed

lemma get_dashboard_InrD':
  assumes "clock_ok now1" "get_dashboard R now1 now2 req g = Inr r"
  obtains start end_dt ts g1 ns g2 ls g3 where
    "strptime (resolved_from now1 req) = Inr start"
    "strptime (resolved_to now2 req) = Inr end_dt"
    "time_series_loop R start (py_range (sub_days end_dt start + 1)) g = Inr (ts, g1)"
    "nodes_loop R (py_range 40) g1 = (ns, g2)"
    "links_loop R ns (py_range 80) g2 = Inr (ls, g3)"
    "r = \<lparr>timeSeries = ts, topics = static_topics, emotions = static_emotions,
          graph = \<lparr>nodes = ns, links = ls\<rparr>,
          meta = \<lparr>meta_from = resolved_from now1 req, meta_to = resolved_to now2 req,
                  meta_platform = resolved_platform req\<rparr>\<rparr>"
proof -
  from assms(2) show ?thesis
  proof (rule get_dashboard_InrD)
    fix d30 start end_dt ts g1 ns g2 ls g3
    assume a: "add_days now1 (- 30) = Inr d30"
      "strptime (args_get (arg_from req) (strftime d30)) = Inr start"
      "strptime (args_get (arg_to req) (strftime now2)) = Inr end_dt"
      "time_series_loop R start (py_range (sub_days end_dt start + 1)) g = Inr (ts, g1)"
      "nodes_loop R (py_range 40) g1 = (ns, g2)"
      "links_loop R ns (py_range 80) g2 = Inr (ls, g3)"
      "r = \<lparr>timeSeries = ts, topics = static_topics, emotions = static_emotions,
          graph = \<lparr>nodes = ns, links = ls\<rparr>,
          meta = \<lparr>meta_from = args_get (arg_from req) (strftime d30),
                  meta_to = args_get (arg_to req) (strftime now2),
                  meta_platform = args_get (arg_platform req) ''twitter''\<rparr>\<rparr>"
    from a(1) clock_ok_sub30[OF assms(1)] have d: "d30 = fromordinal (toordinal now1 - 30)" by simp
    show ?thesis
      using a(2-7) unfolding d
      by (intro that[of start end_dt ts g1 ns g2 ls g3])
         (simp_all add: resolved_from_def resolved_to_def resolved_platform_def)
  qed
qed

lemma time_series_dates_run:
  assumes v: "valid_date start" "valid_date end_dt"
    and t: "time_series_loop R start (py_range (sub_days end_dt start + 1)) g = Inr (ts, g1)"
  shows "map date ts = map strftime (day_run start (nat (sub_days end_dt start + 1)))"
proof -
  let ?k = "nat (sub_days end_dt start + 1)"
  have ok: "add_days start (int i) = Inr (fromordinal (toordinal start + int i))" if "i < ?k" for i
  proof -
    from that toordinal_range(1)[OF v(1)] toordinal_range(2)[OF v(2)]
    have "0 < toordinal start + int i" "toordinal start + int i \<le> MAXORDINAL"
      unfolding sub_days_def by simp_all
    then show ?thesis by (rule add_days_Inr)
  qed
  have "map (\<lambda>p. (Inr (date p) :: error + string)) ts
      = map (\<lambda>i. map_sum id strftime (add_days start i)) (py_range (sub_days end_dt start + 1))"
    by (rule time_series_loop_dates[OF t])
  also have "\<dots> = map (\<lambda>i. Inr (strftime (fromordinal (toordinal start + int i)))) [0..<?k]"
    unfolding py_range_def map_map o_def by (rule map_cong) (simp_all add: ok)
  finally have E: "map (\<lambda>p. (Inr (date p) :: error + string)) ts
      = map (\<lambda>i. Inr (strftime (fromordinal (toordinal start + int i)))) [0..<?k]" .
  have "map date ts = map (\<lambda>i. strftime (fromordinal (toordinal start + int i))) [0..<?k]"
    using arg_cong[OF E, of "map projr"] by (simp add: o_def)
  also have "\<dots> = map strftime (map (\<lambda>i. fromordinal (toordinal start + int i)) [0..<?k])"
    by (simp add: o_def)
  also have "\<dots> = map strftime (day_run start ?k)"
  proof -
    have "toordinal start + int ?k - 1 \<le> MAXORDINAL"
      using toordinal_range(2)[OF v(2)] toordinal_range(2)[OF v(1)] unfolding sub_days_def by auto
    from fromordinal_run[OF v(1) this] show ?thesis by simp
  qed
  finally show ?thesis .
qed

lemma day_run_last:
  assumes "valid_date start" "valid_date end_dt" "toordinal start \<le> toordinal end_dt"
  shows "last (day_run start (nat (sub_days end_dt start + 1))) = end_dt"
proof -
  let ?k = "nat (sub_days end_dt start + 1)"
  have k: "0 < ?k" "int (?k - 1) = toordinal end_dt - toordinal start"
    using assms(3) unfolding sub_days_def by simp_all
  have "toordinal start + int ?k - 1 \<le> MAXORDINAL"
    using toordinal_range(2)[OF assms(2)] assms(3) unfolding sub_days_def by simp
  from fromordinal_run[OF assms(1) this]
  have "day_run start ?k = map (\<lambda>i. fromordinal (toordinal start + int i)) [0..<?k]" by simp
  then have "last (day_run start ?k) = fromordinal (toordinal start + int (?k - 1))"
    using k(1) by (simp add: last_map last_upt)
  also have "\<dots> = fromordinal (toordinal end_dt)" unfolding k(2) by simp
  also have "\<dots> = end_dt" by (rule fromordinal_toordinal[OF assms(2)])
  finally show ?thesis .
qed

section \<open>Concrete requests\<close>

lemma least_draws_contract: "random_contract least_draws"
  unfolding random_contract_def least_draws_def by simp

lemma strptime_jan_1: "strptime ''2024-01-01'' = Inr \<lparr>year = 2024, month = 1, day = 1\<rparr>"
  by code_simp

lemma strptime_jan_3: "strptime ''2024-01-03'' = Inr \<lparr>year = 2024, month = 1, day = 3\<rparr>"
  by code_simp

lemma example_now_ok: "clock_ok example_now"
  by code_simp

lemma toordinal_jan_1: "toordinal \<lparr>year = 2024, month = 1, day = 1\<rparr> = 738886"
  by code_simp

lemma toordinal_jan_3: "toordinal \<lparr>year = 2024, month = 1, day = 3\<rparr> = 738888"
  by code_simp

lemma example_days: "day_run \<lparr>year = 2024, month = 1, day = 1\<rparr> 3 = [\<lparr>year = 2024, month = 1, day = 1\<rparr>, \<lparr>year = 2024, month = 1, day = 2\<rparr>, \<lparr>year = 2024, month = 1, day = 3\<rparr>]"
  by code_simp

lemma ex_strs: "map strftime [\<lparr>year = 2024, month = 1, day = 1\<rparr>, \<lparr>year = 2024, month = 1, day = 2\<rparr>, \<lparr>year = 2024, month = 1, day = 3\<rparr>] = [''2024-01-01'', ''2024-01-02'', ''2024-01-03'']"
  by code_simp

lemma series_length:
  assumes "time_series_loop R start (py_range n) g = Inr (ts, g1)"
  shows "length ts = nat n"
  using time_series_loop_length[OF assms] by (simp add: py_range_length)

lemma get_dashboard_window:
  assumes R: "random_contract R" and c: "clock_ok now1"
    and s: "strptime (resolved_from now1 req) = Inr start"
    and e: "strptime (resolved_to now2 req) = Inr end_dt"
  shows "\<exists>r. get_dashboard R now1 now2 req g = Inr r \<and>
     length (timeSeries r) = nat (sub_days end_dt start + 1) \<and>
     map date (timeSeries r) = map strftime (day_run start (nat (sub_days end_dt start + 1))) \<and>
     meta r = \<lparr>meta_from = resolved_from now1 req, meta_to = resolved_to now2 req,
                meta_platform = resolved_platform req\<rparr>"
proof -
  from get_dashboard_returns[OF R c s e, of g] obtain ts g1 ns ls
    where t: "time_series_loop R start (py_range (sub_days end_dt start + 1)) g = Inr (ts, g1)"
      and G: "get_dashboard R now1 now2 req g =
       Inr \<lparr>timeSeries = ts, topics = static_topics, emotions = static_emotions,
            graph = \<lparr>nodes = ns, links = ls\<rparr>,
            meta = \<lparr>meta_from = resolved_from now1 req, meta_to = resolved_to now2 req,
                    meta_platform = resolved_platform req\<rparr>\<rparr>"
    by blast
  note v = strptime_valid[OF s] strptime_valid[OF e]
  from series_length[OF t] time_series_dates_run[OF v t] G show ?thesis by simp
qed

lemma example_from: "strptime (resolved_from example_now example_request) = Inr \<lparr>year = 2024, month = 1, day = 1\<rparr>"
  unfolding resolved_from_def example_request_def args_get_def using strptime_jan_1 by simp

lemma example_to: "strptime (resolved_to example_now example_request) = Inr \<lparr>year = 2024, month = 1, day = 3\<rparr>"
  unfolding resolved_to_def example_request_def args_get_def using strptime_jan_3 by simp

lemma example_sub_days:
  "sub_days \<lparr>year = 2024, month = 1, day = 3\<rparr> \<lparr>year = 2024, month = 1, day = 1\<rparr> = 2"
  unfolding sub_days_def toordinal_jan_1 toordinal_jan_3 by simp

lemma example_returns:
  "\<exists>r. get_dashboard least_draws example_now example_now example_request () = Inr r \<and>
     length (timeSeries r) = 3"
  using get_dashboard_window[OF least_draws_contract example_now_ok example_from example_to, of "()"]
  unfolding example_sub_days by auto

lemma reversed_from: "strptime (resolved_from example_now reversed_request) = Inr \<lparr>year = 2024, month = 1, day = 3\<rparr>"
  unfolding resolved_from_def reversed_request_def args_get_def using strptime_jan_3 by simp

lemma reversed_to: "strptime (resolved_to example_now reversed_request) = Inr \<lparr>year = 2024, month = 1, day = 1\<rparr>"
  unfolding resolved_to_def reversed_request_def args_get_def using strptime_jan_1 by simp

lemma reversed_sub_days:
  "sub_days \<lparr>year = 2024, month = 1, day = 1\<rparr> \<lparr>year = 2024, month = 1, day = 3\<rparr> = - 2"
  unfolding sub_days_def toordinal_jan_1 toordinal_jan_3 by simp

lemma reversed_returns:
  "\<exists>r. get_dashboard least_draws example_now example_now reversed_request () = Inr r \<and>
     timeSeries r = []"
  using get_dashboard_window[OF least_draws_contract example_now_ok reversed_from reversed_to, of "()"]
  unfolding reversed_sub_days by auto

section \<open>The claims\<close>

text \<open>
  C8. Whenever the handler answers, \<open>topics\<close> is the fixed list of four entries and
  \<open>emotions\<close> the fixed list of five entries, whatever the dates, the platform, the
  clock and the random draws are.
\<close>

theorem static_lists:
  assumes "get_dashboard R now1 now2 req g = Inr r"
  shows "topics r = static_topics \<and> emotions r = static_emotions \<and>
     length (topics r) = 4 \<and> length (emotions r) = 5"
  using assms by (elim get_dashboard_InrD) (simp add: static_topics_def static_emotions_def)

theorem static_lists_witness:
  "\<exists>r. get_dashboard least_draws example_now example_now example_request () = Inr r \<and>
     topics r = static_topics \<and> emotions r = static_emotions \<and>
     length (topics r) = 4 \<and> length (emotions r) = 5"
proof -
  from example_returns obtain r
    where r: "get_dashboard least_draws example_now example_now example_request () = Inr r"
    by blast
  from static_lists[OF r] r show ?thesis by blast
qed

text \<open>
  C6. With every draw of \<open>random()\<close> in \<open>[0, 1)\<close>, each point of the returned series has
  \<open>anxiety\<close>, \<open>sadness\<close> and \<open>joy\<close> between 0 and 0.8, whatever its day offset is.
\<close>

theorem emotions_in_range:
  assumes "random_contract R" "get_dashboard R now1 now2 req g = Inr r" "p \<in> set (timeSeries r)"
  shows "0 \<le> anxiety p \<and> anxiety p \<le> 0.8 \<and> 0 \<le> sadness p \<and> sadness p \<le> 0.8 \<and>
     0 \<le> joy p \<and> joy p \<le> 0.8"
  using assms(2)
proof (rule get_dashboard_InrD)
  fix start end_dt ts g1
  assume t: "time_series_loop R start (py_range (sub_days end_dt start + 1)) g = Inr (ts, g1)"
  fix ns ls d30
  assume "r = \<lparr>timeSeries = ts, topics = static_topics, emotions = static_emotions,
          graph = \<lparr>nodes = ns, links = ls\<rparr>,
          meta = \<lparr>meta_from = args_get (arg_from req) (strftime d30),
                  meta_to = args_get (arg_to req) (strftime now2),
                  meta_platform = args_get (arg_platform req) ''twitter''\<rparr>\<rparr>"
  with assms(3) have "p \<in> set ts" by simp
  from time_series_loop_values[OF assms(1) t this] show ?thesis by simp
qed

theorem emotions_in_range_witness:
  "\<exists>r p. get_dashboard least_draws example_now example_now example_request () = Inr r \<and>
     p \<in> set (timeSeries r) \<and>
     0 \<le> anxiety p \<and> anxiety p \<le> 0.8 \<and> 0 \<le> sadness p \<and> sadness p \<le> 0.8 \<and>
     0 \<le> joy p \<and> joy p \<le> 0.8"
proof -
  from example_returns obtain r
    where r: "get_dashboard least_draws example_now example_now example_request () = Inr r"
      and l: "length (timeSeries r) = 3"
    by blast
  from l obtain p where p: "p \<in> set (timeSeries r)" by (cases "timeSeries r") auto
  from emotions_in_range[OF least_draws_contract r p] r p show ?thesis by blast
qed

text \<open>
  C7. With every draw of \<open>random()\<close> in \<open>[0, 1)\<close>, the \<open>count\<close> of each point of the
  returned series is an integer that is not negative; it is 160 at least, and the handler
  reaches this without clamping the rounded value.
\<close>

theorem count_nonnegative:
  assumes "random_contract R" "get_dashboard R now1 now2 req g = Inr r" "p \<in> set (timeSeries r)"
  shows "0 \<le> count p \<and> 160 \<le> count p"
  using assms(2)
proof (rule get_dashboard_InrD)
  fix start end_dt ts g1
  assume t: "time_series_loop R start (py_range (sub_days end_dt start + 1)) g = Inr (ts, g1)"
  fix ns ls d30
  assume "r = \<lparr>timeSeries = ts, topics = static_topics, emotions = static_emotions,
          graph = \<lparr>nodes = ns, links = ls\<rparr>,
          meta = \<lparr>meta_from = args_get (arg_from req) (strftime d30),
                  meta_to = args_get (arg_to req) (strftime now2),
                  meta_platform = args_get (arg_platform req) ''twitter''\<rparr>\<rparr>"
  with assms(3) have "p \<in> set ts" by simp
  from time_series_loop_values[OF assms(1) t this] show ?thesis by simp
qed

theorem count_nonnegative_witness:
  "\<exists>r p. get_dashboard least_draws example_now example_now example_request () = Inr r \<and>
     p \<in> set (timeSeries r) \<and> 0 \<le> count p"
proof -
  from example_returns obtain r
    where r: "get_dashboard least_draws example_now example_now example_request () = Inr r"
      and l: "length (timeSeries r) = 3"
    by blast
  from l obtain p where p: "p \<in> set (timeSeries r)" by (cases "timeSeries r") auto
  from count_nonnegative[OF least_draws_contract r p] r p show ?thesis by blast
qed

text \<open>
  C2. With the library's contract for \<open>random\<close>, \<open>randint\<close> and \<open>sample\<close>, the graph of
  every answer has 40 nodes and 80 edges; each node has a degree from 1 to 10 and a
  sentiment from -0.8 to 0.8; each edge joins the ids of two nodes of the graph, the two
  ids differ, and its value lies in \<open>[0, 1)\<close>.
\<close>

theorem graph_shape:
  assumes "random_contract R" "get_dashboard R now1 now2 req g = Inr r"
  shows "length (nodes (graph r)) = 40 \<and> length (links (graph r)) = 80 \<and>
     (\<forall>n \<in> set (nodes (graph r)).
        1 \<le> degree n \<and> degree n \<le> 10 \<and> - 0.8 \<le> sentiment n \<and> sentiment n \<le> 0.8) \<and>
     (\<forall>l \<in> set (links (graph r)).
        source l \<in> node_id ` set (nodes (graph r)) \<and>
        target l \<in> node_id ` set (nodes (graph r)) \<and>
        source l \<noteq> target l \<and> 0 \<le> link_value l \<and> link_value l < 1)"
  using assms(2)
proof (rule get_dashboard_InrD)
  fix ts ns ls g1 g2 g3 d30
  assume n: "nodes_loop R (py_range 40) g1 = (ns, g2)"
    and l: "links_loop R ns (py_range 80) g2 = Inr (ls, g3)"
    and r: "r = \<lparr>timeSeries = ts, topics = static_topics, emotions = static_emotions,
          graph = \<lparr>nodes = ns, links = ls\<rparr>,
          meta = \<lparr>meta_from = args_get (arg_from req) (strftime d30),
                  meta_to = args_get (arg_to req) (strftime now2),
                  meta_platform = args_get (arg_platform req) ''twitter''\<rparr>\<rparr>"
  have ln: "length ns = 40" using nodes_loop_length[OF n] by (simp add: py_range_length)
  have ll: "length ls = 80" using links_loop_length[OF l] by (simp add: py_range_length)
  have d: "distinct (map node_id ns)"
    unfolding nodes_loop_ids[OF n] by (rule user_ids_distinct)
  have nv: "1 \<le> degree x \<and> degree x \<le> 10 \<and> - 0.8 \<le> sentiment x \<and> sentiment x \<le> 0.8"
    if "x \<in> set ns" for x
    using nodes_loop_values[OF assms(1) n that] .
  have lv: "source x \<in> node_id ` set ns \<and> target x \<in> node_id ` set ns \<and>
      source x \<noteq> target x \<and> 0 \<le> link_value x \<and> link_value x < 1"
    if "x \<in> set ls" for x
  proof -
    have "2 \<le> length ns" using ln by simp
    from links_loop_values[OF assms(1) this l that] obtain i j
      where ij: "i < length ns" "j < length ns" "i \<noteq> j"
        and x: "source x = node_id (ns ! i)" "target x = node_id (ns ! j)"
          "0 \<le> link_value x" "link_value x < 1"
      by blast
    have "i < length (map node_id ns)" "j < length (map node_id ns)" using ij by simp_all
    from nth_eq_iff_index_eq[OF d this] ij(3)
    have "map node_id ns ! i \<noteq> map node_id ns ! j" by simp
    then have "source x \<noteq> target x" using x(1,2) ij by simp
    moreover have "source x \<in> node_id ` set ns" "target x \<in> node_id ` set ns"
      using x(1,2) ij by simp_all
    ultimately show ?thesis using x(3,4) by simp
  qed
  show ?thesis unfolding r using ln ll nv lv by simp
qed

theorem graph_shape_witness:
  "\<exists>r. get_dashboard least_draws example_now example_now example_request () = Inr r \<and>
     length (nodes (graph r)) = 40 \<and> length (links (graph r)) = 80"
proof -
  from example_returns obtain r
    where r: "get_dashboard least_draws example_now example_now example_request () = Inr r"
    by blast
  from graph_shape[OF least_draws_contract r] r show ?thesis by blast
qed

lemma add_days_InrD: "add_days dt k = Inr d \<Longrightarrow> d = fromordinal (toordinal dt + k)"
  unfolding add_days_def Let_def by (simp split: if_splits)

text \<open>
  C9. In every answer \<open>meta\<close> carries the resolved parameters: the value of the query
  string where \<open>from\<close>, \<open>to\<close> or \<open>platform\<close> is given, and otherwise the default, which
  is the first clock reading less thirty days, the second clock reading, and \<open>twitter\<close>.
\<close>

theorem meta_echo:
  assumes "get_dashboard R now1 now2 req g = Inr r"
  shows "meta_from (meta r) =
       (case arg_from req of Some s \<Rightarrow> s | None \<Rightarrow> strftime (fromordinal (toordinal now1 - 30))) \<and>
     meta_to (meta r) = (case arg_to req of Some s \<Rightarrow> s | None \<Rightarrow> strftime now2) \<and>
     meta_platform (meta r) = (case arg_platform req of Some s \<Rightarrow> s | None \<Rightarrow> ''twitter'')"
  using assms
proof (rule get_dashboard_InrD)
  fix d30 ts ns ls
  assume a: "add_days now1 (- 30) = Inr d30"
    and r: "r = \<lparr>timeSeries = ts, topics = static_topics, emotions = static_emotions,
          graph = \<lparr>nodes = ns, links = ls\<rparr>,
          meta = \<lparr>meta_from = args_get (arg_from req) (strftime d30),
                  meta_to = args_get (arg_to req) (strftime now2),
                  meta_platform = args_get (arg_platform req) ''twitter''\<rparr>\<rparr>"
  from add_days_InrD[OF a] have d: "d30 = fromordinal (toordinal now1 - 30)" by simp
  show ?thesis unfolding r args_get_def d by simp
qed

theorem meta_echo_witness:
  "\<exists>r. get_dashboard least_draws example_now example_now example_request () = Inr r \<and>
     meta_from (meta r) = ''2024-01-01'' \<and> meta_to (meta r) = ''2024-01-03'' \<and>
     meta_platform (meta r) = ''twitter''"
proof -
  from example_returns obtain r
    where r: "get_dashboard least_draws example_now example_now example_request () = Inr r"
    by blast
  from meta_echo[OF r] r show ?thesis by (simp add: example_request_def)
qed

text \<open>
  C10. Two requests with the same \<open>from\<close> and \<open>to\<close>, run with the same clock readings
  and the same generator, end alike: both raise the same error, or both answer, and the
  answers differ in \<open>meta.platform\<close> at most.
\<close>

theorem platform_independence:
  assumes "arg_from req1 = arg_from req2" "arg_to req1 = arg_to req2"
  shows "get_dashboard R now1 now2 req1 g =
     map_sum id (\<lambda>r. r\<lparr>meta := (meta r)\<lparr>meta_platform := resolved_platform req1\<rparr>\<rparr>)
       (get_dashboard R now1 now2 req2 g)"
  unfolding get_dashboard_def Let_def resolved_platform_def assms
  by (simp split: sum.splits prod.splits)

theorem platform_independence_witness:
  "arg_platform example_request \<noteq> Some ''reddit'' \<and>
   get_dashboard least_draws example_now example_now example_request () =
     map_sum id (\<lambda>r. r\<lparr>meta := (meta r)\<lparr>meta_platform := resolved_platform example_request\<rparr>\<rparr>)
       (get_dashboard least_draws example_now example_now
          (example_request\<lparr>arg_platform := Some ''reddit''\<rparr>) ())"
  using platform_independence[of example_request "example_request\<lparr>arg_platform := Some ''reddit''\<rparr>"
      least_draws example_now example_now "()"]
  by (simp add: example_request_def)

text \<open>
  C4. When \<open>from\<close> or \<open>to\<close> is given and \<open>strptime\<close> rejects it, the handler gives no
  answer: the request ends in an error, and with a usable clock the error is the
  \<open>ValueError\<close> of the parser, which nothing catches.
\<close>

theorem malformed_date_propagates:
  assumes "(arg_from req = Some s \<and> strptime s = Inl e) \<or> (arg_to req = Some s \<and> strptime s = Inl e)"
  shows "isl (get_dashboard R now1 now2 req g) \<and>
     (clock_ok now1 \<longrightarrow> get_dashboard R now1 now2 req g = Inl ValueError)"
proof -
  have 1: "get_dashboard R now1 now2 req g = Inl ValueError" if "add_days now1 (- 30) = Inr d30" for d30
  proof (cases "strptime (args_get (arg_from req) (strftime d30))")
    case (Inl e')
    from strptime_error[OF this] Inl that show ?thesis
      unfolding get_dashboard_def Let_def by simp
  next
    case (Inr start)
    with assms have t: "arg_to req = Some s" "strptime s = Inl e"
      unfolding args_get_def by auto
    from strptime_error[OF t(2)] t have "strptime (args_get (arg_to req) (strftime now2)) = Inl ValueError"
      unfolding args_get_def by simp
    with Inr that show ?thesis
      unfolding get_dashboard_def Let_def by simp
  qed
  have "isl (get_dashboard R now1 now2 req g)"
  proof (cases "add_days now1 (- 30)")
    case (Inl e')
    then show ?thesis unfolding get_dashboard_def by simp
  next
    case (Inr d30)
    from 1[OF this] show ?thesis by simp
  qed
  moreover have "get_dashboard R now1 now2 req g = Inl ValueError" if "clock_ok now1"
    using 1[OF clock_ok_sub30[OF that]] .
  ultimately show ?thesis by simp
qed

lemma strptime_month_13: "strptime ''2024-13-01'' = Inl ValueError"
  by code_simp

theorem malformed_date_propagates_witness:
  "arg_from malformed_request = Some ''2024-13-01'' \<and> strptime ''2024-13-01'' = Inl ValueError \<and>
   get_dashboard least_draws example_now example_now malformed_request () = Inl ValueError"
proof -
  have a: "arg_from malformed_request = Some ''2024-13-01''" by (simp add: malformed_request_def)
  from malformed_date_propagates[of malformed_request "''2024-13-01''" ValueError least_draws
      example_now example_now "()"] a strptime_month_13 example_now_ok
  show ?thesis by simp
qed

text \<open>
  C5. When both dates parse and \<open>to\<close> lies before \<open>from\<close>, the day count is 0 or less,
  the handler answers, and the series of the answer is empty.
\<close>

theorem reversed_range_empty:
  assumes "random_contract R" "clock_ok now1"
    and "strptime (resolved_from now1 req) = Inr start"
    and "strptime (resolved_to now2 req) = Inr end_dt"
    and "date_less end_dt start"
  shows "sub_days end_dt start + 1 \<le> 0 \<and>
     (\<exists>r. get_dashboard R now1 now2 req g = Inr r \<and> timeSeries r = [])"
proof -
  from toordinal_less[OF strptime_valid[OF assms(4)] strptime_valid[OF assms(3)] assms(5)]
  have d: "sub_days end_dt start + 1 \<le> 0" unfolding sub_days_def by simp
  from get_dashboard_window[OF assms(1-4), of g] d show ?thesis by auto
qed

theorem reversed_range_empty_witness:
  "date_less \<lparr>year = 2024, month = 1, day = 1\<rparr> \<lparr>year = 2024, month = 1, day = 3\<rparr> \<and>
   (\<exists>r. get_dashboard least_draws example_now example_now reversed_request () = Inr r \<and>
      timeSeries r = [])"
proof -
  have l: "date_less \<lparr>year = 2024, month = 1, day = 1\<rparr> \<lparr>year = 2024, month = 1, day = 3\<rparr>"
    by (simp add: date_less_def)
  from reversed_range_empty[OF least_draws_contract example_now_ok reversed_from reversed_to l, of "()"] l
  show ?thesis by simp
qed

text \<open>
  C1, as stated, at the request \<open>from=2024-01-03&to=2024-01-01\<close>: both dates parse and the
  handler answers, but the series has no point, while (to - from in days) + 1 is -1.
\<close>

theorem series_length_counterexample:
  "strptime ''2024-01-03'' = Inr \<lparr>year = 2024, month = 1, day = 3\<rparr> \<and>
   strptime ''2024-01-01'' = Inr \<lparr>year = 2024, month = 1, day = 1\<rparr> \<and>
   \<not> isl (get_dashboard least_draws example_now example_now reversed_request ()) \<and>
   timeSeries (projr (get_dashboard least_draws example_now example_now reversed_request ())) = [] \<and>
   sub_days \<lparr>year = 2024, month = 1, day = 1\<rparr> \<lparr>year = 2024, month = 1, day = 3\<rparr> + 1 = - 1 \<and>
   int (length (timeSeries (projr (get_dashboard least_draws example_now example_now reversed_request ()))))
     \<noteq> sub_days \<lparr>year = 2024, month = 1, day = 1\<rparr> \<lparr>year = 2024, month = 1, day = 3\<rparr> + 1"
proof -
  from reversed_returns obtain r
    where "get_dashboard least_draws example_now example_now reversed_request () = Inr r"
      and "timeSeries r = []"
    by blast
  then show ?thesis
    using strptime_jan_1 strptime_jan_3 reversed_sub_days by simp
qed

text \<open>
  C1, amended. When the resolved \<open>from\<close> and \<open>to\<close> parse and \<open>to\<close> is not before
  \<open>from\<close>, the handler answers with (to - from in days) + 1 points, and their dates are
  the formatted days of the run of consecutive calendar days that begins with \<open>from\<close> and
  ends with \<open>to\<close>.
\<close>

theorem series_is_day_run:
  assumes "random_contract R" "clock_ok now1"
    and "strptime (resolved_from now1 req) = Inr start"
    and "strptime (resolved_to now2 req) = Inr end_dt"
    and "\<not> date_less end_dt start"
  shows "\<exists>r days. get_dashboard R now1 now2 req g = Inr r \<and>
     int (length (timeSeries r)) = sub_days end_dt start + 1 \<and>
     map date (timeSeries r) = map strftime days \<and>
     days = day_run start (length (timeSeries r)) \<and>
     hd days = start \<and> last days = end_dt \<and>
     (\<forall>i. Suc i < length days \<longrightarrow> days ! Suc i = next_day (days ! i) \<and> date_less (days ! i) (days ! Suc i))"
proof -
  note v = strptime_valid[OF assms(3)] strptime_valid[OF assms(4)]
  from assms(5) have le: "toordinal start \<le> toordinal end_dt"
    using date_less_iff[OF v(2,1)] by simp
  let ?k = "nat (sub_days end_dt start + 1)"
  have k: "0 < ?k" "int ?k = sub_days end_dt start + 1"
    using le unfolding sub_days_def by simp_all
  have bound: "toordinal start + int ?k - 1 \<le> MAXORDINAL"
    using toordinal_range(2)[OF v(2)] le unfolding sub_days_def by simp
  have run: "day_run start ?k = map (\<lambda>i. fromordinal (toordinal start + int i)) [0..<?k]"
    using fromordinal_run[OF v(1) bound] by simp
  have step: "day_run start ?k ! Suc i = next_day (day_run start ?k ! i) \<and>
      date_less (day_run start ?k ! i) (day_run start ?k ! Suc i)" if "Suc i < ?k" for i
  proof -
    have n: "day_run start ?k ! Suc i = next_day (day_run start ?k ! i)"
      by (rule day_run_nth_Suc[OF that])
    have i: "i < ?k" using that by simp
    have r: "0 < toordinal start + int i" "toordinal start + int i < MAXORDINAL"
      using that toordinal_range(1)[OF v(1)] bound by simp_all
    have di: "day_run start ?k ! i = fromordinal (toordinal start + int i)"
      unfolding run using i by simp
    have vi: "valid_date (day_run start ?k ! i)" "toordinal (day_run start ?k ! i) = toordinal start + int i"
      unfolding di using r by (simp_all add: fromordinal_valid)
    have vs: "valid_date (next_day (day_run start ?k ! i))"
      using valid_next_day[OF vi(1)] vi(2) r by simp
    have "toordinal (day_run start ?k ! i) < toordinal (next_day (day_run start ?k ! i))"
      using toordinal_next_day[OF vi(1)] by simp
    then have "date_less (day_run start ?k ! i) (next_day (day_run start ?k ! i))"
      using date_less_iff[OF vi(1) vs] by simp
    with n show ?thesis by simp
  qed
  from get_dashboard_window[OF assms(1-4), of g] obtain r
    where r: "get_dashboard R now1 now2 req g = Inr r"
      and l: "length (timeSeries r) = ?k"
      and d: "map date (timeSeries r) = map strftime (day_run start ?k)"
    by blast
  have c1: "int (length (timeSeries r)) = sub_days end_dt start + 1" using l k(2) by simp
  have c3: "day_run start ?k = day_run start (length (timeSeries r))" using l by simp
  have c4: "hd (day_run start ?k) = start" by (rule day_run_hd[OF k(1)])
  have c5: "last (day_run start ?k) = end_dt" by (rule day_run_last[OF v le])
  have c6: "\<forall>i. Suc i < length (day_run start ?k) \<longrightarrow>
      day_run start ?k ! Suc i = next_day (day_run start ?k ! i) \<and>
      date_less (day_run start ?k ! i) (day_run start ?k ! Suc i)"
  proof (intro allI impI)
    fix i assume "Suc i < length (day_run start ?k)"
    then have "Suc i < ?k" by (simp add: day_run_length)
    then show "day_run start ?k ! Suc i = next_day (day_run start ?k ! i) \<and>
      date_less (day_run start ?k ! i) (day_run start ?k ! Suc i)" by (rule step)
  qed
  show ?thesis
    by (rule exI[of _ r], rule exI[of _ "day_run start ?k"]) (intro conjI r c1 d c3 c4 c5 c6)
qed

theorem series_is_day_run_witness:
  "\<not> date_less \<lparr>year = 2024, month = 1, day = 3\<rparr> \<lparr>year = 2024, month = 1, day = 1\<rparr> \<and>
   (\<exists>r. get_dashboard least_draws example_now example_now example_request () = Inr r \<and>
      length (timeSeries r) = 3 \<and>
      map date (timeSeries r) = [''2024-01-01'', ''2024-01-02'', ''2024-01-03''])"
proof -
  have n: "\<not> date_less \<lparr>year = 2024, month = 1, day = 3\<rparr> \<lparr>year = 2024, month = 1, day = 1\<rparr>"
    by (simp add: date_less_def)
  from series_is_day_run[OF least_draws_contract example_now_ok example_from example_to n, of "()"]
  obtain r days where r: "get_dashboard least_draws example_now example_now example_request () = Inr r"
    and l0: "int (length (timeSeries r)) = sub_days \<lparr>year = 2024, month = 1, day = 3\<rparr> \<lparr>year = 2024, month = 1, day = 1\<rparr> + 1"
    and d: "map date (timeSeries r) = map strftime days"
    and ds: "days = day_run \<lparr>year = 2024, month = 1, day = 1\<rparr> (length (timeSeries r))"
    by (elim exE conjE) (rule that, assumption+)
  from l0 have l: "int (length (timeSeries r)) = 3"
    unfolding example_sub_days by simp
  from l have l3: "length (timeSeries r) = 3" by simp
  have m: "map date (timeSeries r) = [''2024-01-01'', ''2024-01-02'', ''2024-01-03'']"
    unfolding d ds l3 example_days ex_strs ..
  show ?thesis
    by (intro conjI exI[of _ r] n r l3 m)
qed

lemma before_midnight_ok: "clock_ok before_midnight"
  by code_simp

lemma after_midnight_ok: "clock_ok after_midnight"
  by code_simp

lemma rollover_from: "resolved_from before_midnight empty_request = ''2024-01-01''"
  by code_simp

lemma rollover_to: "resolved_to after_midnight empty_request = ''2024-02-01''"
  by code_simp

lemma strptime_feb_1: "strptime ''2024-02-01'' = Inr \<lparr>year = 2024, month = 2, day = 1\<rparr>"
  by code_simp

lemma rollover_sub_days:
  "sub_days \<lparr>year = 2024, month = 2, day = 1\<rparr> \<lparr>year = 2024, month = 1, day = 1\<rparr> = 31"
  by code_simp

lemma last_date:
  assumes "ts \<noteq> []"
  shows "date (last ts) = last (map date ts)"
  using assms by (simp add: last_map)

lemma dby_1000: "days_before_year 1000 = 364877"
  by (simp add: days_before_year_def)

lemma dby_1001: "days_before_year 1001 = 365242"
  by (simp add: days_before_year_def)

lemma default_from_ok:
  assumes "valid_date now" "1001 \<le> year now"
  shows "clock_ok now" "valid_date (fromordinal (toordinal now - 30))"
    "toordinal (fromordinal (toordinal now - 30)) = toordinal now - 30"
    "1000 \<le> year (fromordinal (toordinal now - 30))"
proof -
  from assms(1) have v: "1 \<le> month now" "month now \<le> 12" "1 \<le> day now"
      "day now \<le> days_in_month (year now) (month now)"
    unfolding valid_date_def by simp_all
  have "days_before_year 1001 \<le> days_before_year (year now)" using assms(2) by (rule dby_mono)
  with ymd2ord_bounds(1)[OF v] have lo: "365242 < toordinal now"
    unfolding toordinal_def dby_1001 by simp
  then show c: "clock_ok now" unfolding clock_ok_def using assms(1) by simp
  let ?d = "fromordinal (toordinal now - 30)"
  have r: "1 \<le> toordinal now - 30" "toordinal now - 30 \<le> MAXORDINAL"
    using lo toordinal_range(2)[OF assms(1)] by simp_all
  show vd: "valid_date ?d" by (rule fromordinal_valid(1)[OF r])
  show td: "toordinal ?d = toordinal now - 30" by (rule fromordinal_valid(2)[OF r])
  from vd have v': "1 \<le> month ?d" "month ?d \<le> 12" "1 \<le> day ?d"
      "day ?d \<le> days_in_month (year ?d) (month ?d)"
    unfolding valid_date_def by simp_all
  show "1000 \<le> year ?d"
  proof (rule ccontr)
    assume "\<not> 1000 \<le> year ?d"
    then have "year ?d + 1 \<le> 1000" by simp
    then have "days_before_year (year ?d + 1) \<le> days_before_year 1000" by (rule dby_mono)
    with ymd2ord_bounds(2)[OF v'] have "toordinal ?d \<le> 364877"
      unfolding toordinal_def dby_1000 by simp
    with td lo show False by simp
  qed
qed

text \<open>
  When the two readings of the clock are the same day of a year from 1001 on, the empty
  query string gives the window of the specification: 31 points, the last one dated that
  day, and the platform \<open>twitter\<close>.
\<close>

lemma default_window:
  assumes "random_contract R" "valid_date now" "1001 \<le> year now"
  shows "\<exists>r. get_dashboard R now now empty_request g = Inr r \<and>
     length (timeSeries r) = 31 \<and> date (last (timeSeries r)) = strftime now \<and>
     meta_platform (meta r) = ''twitter''"
proof -
  let ?d = "fromordinal (toordinal now - 30)"
  note d = default_from_ok[OF assms(2,3)]
  have y: "1000 \<le> year now" using assms(3) by simp
  have s: "strptime (resolved_from now empty_request) = Inr ?d"
    unfolding resolved_from_def empty_request_def args_get_def
    using strptime_strftime[OF d(2,4)] by simp
  have e: "strptime (resolved_to now empty_request) = Inr now"
    unfolding resolved_to_def empty_request_def args_get_def
    using strptime_strftime[OF assms(2) y] by simp
  have sd: "sub_days now ?d + 1 = 31" unfolding sub_days_def d(3) by simp
  from get_dashboard_window[OF assms(1) d(1) s e, of g]
  obtain r where r: "get_dashboard R now now empty_request g = Inr r"
    and l0: "length (timeSeries r) = nat (sub_days now ?d + 1)"
    and d0: "map date (timeSeries r) = map strftime (day_run ?d (nat (sub_days now ?d + 1)))"
    and m: "meta r = \<lparr>meta_from = resolved_from now empty_request,
         meta_to = resolved_to now empty_request,
         meta_platform = resolved_platform empty_request\<rparr>"
    by (elim exE conjE) (rule that, assumption+)
  have l: "length (timeSeries r) = 31" using l0 unfolding sd by simp
  have dr: "map date (timeSeries r) = map strftime (day_run ?d 31)"
    using d0 unfolding sd by simp
  have ne: "timeSeries r \<noteq> []" using l by auto
  have ne': "day_run ?d 31 \<noteq> []" using day_run_length[of ?d 31] by auto
  have le: "toordinal ?d \<le> toordinal now" unfolding d(3) by simp
  have "last (day_run ?d (nat (sub_days now ?d + 1))) = now"
    by (rule day_run_last[OF d(2) assms(2) le])
  then have la: "last (day_run ?d 31) = now" unfolding sd by simp
  have "date (last (timeSeries r)) = last (map strftime (day_run ?d 31))"
    unfolding last_date[OF ne] dr ..
  also have "\<dots> = strftime (last (day_run ?d 31))" using ne' by (simp add: last_map)
  finally have dl: "date (last (timeSeries r)) = strftime now" unfolding la .
  have p: "meta_platform (meta r) = ''twitter''"
    unfolding m by (simp add: resolved_platform_def empty_request_def args_get_def)
  show ?thesis
    by (intro exI[of _ r] conjI r l dl p)
qed

text \<open>
  C3 at the empty query string, with midnight between the two readings of the clock
  (2024-01-31, then 2024-02-01): the handler answers with 32 points, the last of them
  dated 2024-02-01, and the platform \<open>twitter\<close>.
\<close>

theorem midnight_rollover:
  "clock_ok before_midnight \<and> clock_ok after_midnight \<and>
   \<not> isl (get_dashboard least_draws before_midnight after_midnight empty_request ()) \<and>
   length (timeSeries (projr (get_dashboard least_draws before_midnight after_midnight empty_request ()))) = 32 \<and>
   date (last (timeSeries (projr (get_dashboard least_draws before_midnight after_midnight empty_request ())))) = ''2024-02-01'' \<and>
   meta_platform (meta (projr (get_dashboard least_draws before_midnight after_midnight empty_request ()))) = ''twitter''"
proof -
  let ?s = "\<lparr>year = 2024, month = 1, day = 1\<rparr>"
  let ?e = "\<lparr>year = 2024, month = 2, day = 1\<rparr>"
  have s: "strptime (resolved_from before_midnight empty_request) = Inr ?s"
    unfolding rollover_from by (rule strptime_jan_1)
  have e: "strptime (resolved_to after_midnight empty_request) = Inr ?e"
    unfolding rollover_to by (rule strptime_feb_1)
  from get_dashboard_window[OF least_draws_contract before_midnight_ok s e, of "()"]
  obtain r where r: "get_dashboard least_draws before_midnight after_midnight empty_request () = Inr r"
    and l0: "length (timeSeries r) = nat (sub_days ?e ?s + 1)"
    and d0: "map date (timeSeries r) = map strftime (day_run ?s (nat (sub_days ?e ?s + 1)))"
    and m: "meta r = \<lparr>meta_from = resolved_from before_midnight empty_request,
         meta_to = resolved_to after_midnight empty_request,
         meta_platform = resolved_platform empty_request\<rparr>"
    by (elim exE conjE) (rule that, assumption+)
  have l: "length (timeSeries r) = 32" using l0 unfolding rollover_sub_days by simp
  have d: "map date (timeSeries r) = map strftime (day_run ?s 32)"
    using d0 unfolding rollover_sub_days by simp
  have ne: "timeSeries r \<noteq> []" using l by auto
  have ne': "day_run ?s 32 \<noteq> []" using day_run_length[of ?s 32] by auto
  have le: "toordinal ?s \<le> toordinal ?e" using rollover_sub_days unfolding sub_days_def by simp
  have "last (day_run ?s (nat (sub_days ?e ?s + 1))) = ?e"
    by (rule day_run_last[OF strptime_valid[OF s] strptime_valid[OF e] le])
  then have la: "last (day_run ?s 32) = ?e" unfolding rollover_sub_days by simp
  have "date (last (timeSeries r)) = last (map strftime (day_run ?s 32))"
    unfolding last_date[OF ne] d ..
  also have "\<dots> = strftime (last (day_run ?s 32))" using ne' by (simp add: last_map)
  also have "\<dots> = ''2024-02-01''" unfolding la by code_simp
  finally have dl: "date (last (timeSeries r)) = ''2024-02-01''" .
  have p: "meta_platform (meta r) = ''twitter''"
    unfolding m by (simp add: resolved_platform_def empty_request_def args_get_def)
  show ?thesis
    unfolding r sum.sel by (intro conjI before_midnight_ok after_midnight_ok l dl p) simp
qed

end
